theory Spec2Isabelle
  imports Complex_Main
begin

section \<open>Caption alignment and timing synthesis (server/services/srt-parser.js)\<close>

text \<open>
  Modelling conventions.
  \<^item> A JavaScript string is a list of UTF-16 code units. The texts that the aligners
    compare are of type \<open>string\<close>, whose characters are the code units U+0000 .. U+00FF
    (Latin-1); on that range \<open>toLowerCase\<close>, the regular-expression classes \<open>\w\<close> and \<open>\s\<close>
    and \<open>trim\<close> are written out below as ECMAScript defines them. \<open>normalize\<close> and
    \<open>timeToSeconds\<close>, whose statements speak of every string, are given on lists of
    arbitrary code units (\<open>normalizeUnits\<close>, with \<open>toLowerCase\<close> as a parameter);
    \<open>normalize\<close> is \<open>normalizeUnits\<close> on the Latin-1 strings (lemma \<open>normalize_units\<close>).
  \<^item> A JavaScript number is modelled by an exact rational (\<open>rat\<close>); the rounding of
    IEEE-754 doubles to the nearest double is not modelled, so a rational stands for the
    double next to it. \<open>Math.round x\<close> is \<open>\<lfloor>x + 1/2\<rfloor>\<close>. Cue times and segment bounds are
    finite numbers. Where the source can produce \<open>NaN\<close> or an infinity (in \<open>timeToSeconds\<close>,
    where a value out of the range of the doubles becomes an infinity or 0, and in
    \<open>interpolateMissing\<close> on a mapping entry without a time) the model has a value for it.
  \<^item> A \<open>Set\<close> of strings is a duplicate-free list; \<open>size\<close> is its length and \<open>has\<close> is
    membership. The code only counts its sets and tests membership, so the order of the
    list does not matter.
  \<^item> \<open>null\<close> is \<open>None\<close>. An index variable that the source starts at \<open>-1\<close> is an \<open>int\<close>.
  \<^item> A loop is a \<open>foldl\<close> of its body over the list of the values of its counter, or a
    recursion over that list when the loop has a \<open>break\<close>.
  \<^item> Every list read \<open>xs ! i\<close> below is in range where the source reads in range; the
    lemmas on the loops show it for the reads that depend on a search result.
  \<^item> Objects are records with the field names of the source. Where two records share a
    field name the record name is written in front (\<open>cue.startTime\<close>, \<open>segment.num\<close>).
\<close>

subsection \<open>Strings\<close>

definition code :: "char \<Rightarrow> nat" where
  "code c = of_char c"

text \<open>\<open>\w\<close> is \<open>[A-Za-z0-9_]\<close>.\<close>

definition isWord :: "char \<Rightarrow> bool" where
  "isWord c = ((48 \<le> code c \<and> code c \<le> 57) \<or> (65 \<le> code c \<and> code c \<le> 90)
               \<or> code c = 95 \<or> (97 \<le> code c \<and> code c \<le> 122))"

text \<open>\<open>\s\<close> (and what \<open>trim\<close> strips): TAB, LF, VT, FF, CR, SPACE and NBSP are the
  white-space and line-terminator code units below U+0100.\<close>

definition isSpace :: "char \<Rightarrow> bool" where
  "isSpace c = ((9 \<le> code c \<and> code c \<le> 13) \<or> code c = 32 \<or> code c = 160)"

text \<open>\<open>toLowerCase\<close>, code unit by code unit: A-Z and the Latin-1 capitals U+00C0 .. U+00DE
  (but not the multiplication sign U+00D7) move up by 32.\<close>

definition isUpper :: "char \<Rightarrow> bool" where
  "isUpper c = ((65 \<le> code c \<and> code c \<le> 90) \<or> (192 \<le> code c \<and> code c \<le> 222 \<and> code c \<noteq> 215))"

definition toLowerChar :: "char \<Rightarrow> char" where
  "toLowerChar c = (if isUpper c then char_of (code c + 32) else c)"

definition toLowerCase :: "string \<Rightarrow> string" where
  "toLowerCase s = map toLowerChar s"

text \<open>\<open>.replace(/[^\w\s]/g, ' ')\<close>\<close>

definition replaceNonWord :: "string \<Rightarrow> string" where
  "replaceNonWord s = map (\<lambda>c. if isWord c \<or> isSpace c then c else CHR '' '') s"

text \<open>\<open>.replace(/\s+/g, ' ')\<close>: every maximal run of white space becomes one space.\<close>

function collapseSpaces :: "string \<Rightarrow> string" where
  "collapseSpaces [] = []"
| "collapseSpaces (c # cs) =
     (if isSpace c then CHR '' '' # collapseSpaces (dropWhile isSpace cs)
      else c # collapseSpaces cs)"
  by pat_completeness auto
termination
  by (relation "measure length") (auto simp: less_Suc_eq_le length_dropWhile_le)

definition trim :: "string \<Rightarrow> string" where
  "trim s = rev (dropWhile isSpace (rev (dropWhile isSpace s)))"

text \<open>\<open>normalize(text)\<close>; \<open>text || ''\<close> leaves a string as it is.\<close>

definition normalize :: "string \<Rightarrow> string" where
  "normalize text = trim (collapseSpaces (replaceNonWord (toLowerCase text)))"

text \<open>\<open>s.split(sep)\<close> for a one-character separator: \<open>''''\<close> splits into one empty part.\<close>

fun split :: "'a \<Rightarrow> 'a list \<Rightarrow> 'a list list" where
  "split sep [] = [[]]"
| "split sep (c # cs) =
     (if c = sep then [] # split sep cs
      else (case split sep cs of [] \<Rightarrow> [[c]] | w # ws \<Rightarrow> (c # w) # ws))"

text \<open>\<open>s.split(' ').filter(Boolean)\<close>: the non-empty parts.\<close>

definition wordsOf :: "string \<Rightarrow> string list" where
  "wordsOf s = filter (\<lambda>w. w \<noteq> []) (split (CHR '' '') s)"

fun startsWith :: "'a list \<Rightarrow> 'a list \<Rightarrow> bool" where
  "startsWith s [] = True"
| "startsWith [] (p # ps) = False"
| "startsWith (c # cs) (p # ps) = (c = p \<and> startsWith cs ps)"

text \<open>\<open>s.includes(t)\<close> (\<open>includes\<close> is an Isar keyword): \<open>t\<close> occurs in \<open>s\<close> as a contiguous substring.\<close>

fun includesStr :: "'a list \<Rightarrow> 'a list \<Rightarrow> bool" where
  "includesStr [] t = (t = [])"
| "includesStr (c # cs) t = (startsWith (c # cs) t \<or> includesStr cs t)"

subsection \<open>Strings of arbitrary code units\<close>

text \<open>The statements on \<open>normalize\<close> and \<open>timeToSeconds\<close> speak of every string. For them a
  string is the list of its UTF-16 code units, each a number; \<open>unitsOf\<close> gives the code
  units of a string of the kind above.\<close>

definition unitsOf :: "string \<Rightarrow> nat list" where
  "unitsOf s = map code s"

definition isWordUnit :: "nat \<Rightarrow> bool" where
  "isWordUnit u = ((48 \<le> u \<and> u \<le> 57) \<or> (65 \<le> u \<and> u \<le> 90) \<or> u = 95 \<or> (97 \<le> u \<and> u \<le> 122))"

text \<open>\<open>\s\<close>, which is also what \<open>trim\<close>, \<open>parseInt\<close> and \<open>parseFloat\<close> skip: the white space
  and the line terminators of ECMAScript, that is TAB, LF, VT, FF, CR, SPACE, NBSP, U+1680,
  U+2000 .. U+200A, U+2028, U+2029, U+202F, U+205F, U+3000 and U+FEFF.\<close>

definition isSpaceUnit :: "nat \<Rightarrow> bool" where
  "isSpaceUnit u = ((9 \<le> u \<and> u \<le> 13) \<or> u = 32 \<or> u = 160 \<or> u = 5760
                    \<or> (8192 \<le> u \<and> u \<le> 8202) \<or> u = 8232 \<or> u = 8233 \<or> u = 8239
                    \<or> u = 8287 \<or> u = 12288 \<or> u = 65279)"

definition replaceNonWordUnits :: "nat list \<Rightarrow> nat list" where
  "replaceNonWordUnits s = map (\<lambda>u. if isWordUnit u \<or> isSpaceUnit u then u else 32) s"

function collapseSpacesUnits :: "nat list \<Rightarrow> nat list" where
  "collapseSpacesUnits [] = []"
| "collapseSpacesUnits (u # us) =
     (if isSpaceUnit u then 32 # collapseSpacesUnits (dropWhile isSpaceUnit us)
      else u # collapseSpacesUnits us)"
  by pat_completeness auto
termination
  by (relation "measure length") (auto simp: less_Suc_eq_le length_dropWhile_le)

definition trimUnits :: "nat list \<Rightarrow> nat list" where
  "trimUnits s = rev (dropWhile isSpaceUnit (rev (dropWhile isSpaceUnit s)))"

text \<open>\<open>normalize(text)\<close> on every string. \<open>String.prototype.toLowerCase\<close> is not a map of
  single code units (U+0130 becomes two code units, a capital sigma depends on its
  neighbours) and its table is not part of the repository: it is the parameter \<open>lower\<close>.\<close>

definition normalizeUnits :: "(nat list \<Rightarrow> nat list) \<Rightarrow> nat list \<Rightarrow> nat list" where
  "normalizeUnits lower text =
     trimUnits (collapseSpacesUnits (replaceNonWordUnits (lower text)))"

subsection \<open>Similarity\<close>

text \<open>\<open>toBigrams\<close>: the set of \<open>str.slice(i, i + 2)\<close> for \<open>i < str.length - 1\<close>.\<close>

fun bigramList :: "string \<Rightarrow> string list" where
  "bigramList (a # b # cs) = [a, b] # bigramList (b # cs)"
| "bigramList cs = []"

definition toBigrams :: "string \<Rightarrow> string list" where
  "toBigrams str = remdups (bigramList str)"

text \<open>The number of members of the first set that the second set has.\<close>

definition countIn :: "string list \<Rightarrow> string list \<Rightarrow> nat" where
  "countIn xs ys = length (filter (\<lambda>w. w \<in> set ys) xs)"

definition similarity :: "string \<Rightarrow> string \<Rightarrow> rat" where
  "similarity a b =
     (if a = [] \<or> b = [] then 0
      else
        let wordsA = wordsOf a; wordsB = wordsOf b in
        if length wordsA = 0 \<or> length wordsB = 0 then 0
        else
          let setA = remdups wordsA; setB = remdups wordsB;
              overlap = countIn setA setB;
              jaccard = of_nat overlap / of_nat (max (length setA) (length setB));
              substringBonus = (if includesStr a b \<or> includesStr b a then 3 / 10 else 0);
              bigramsA = toBigrams a; bigramsB = toBigrams b;
              bigramOverlap = countIn bigramsA bigramsB;
              bigramScore =
                (if length bigramsA > 0
                 then of_nat bigramOverlap / of_nat (max (length bigramsA) (length bigramsB))
                 else 0)
          in min 1 (max jaccard bigramScore + substringBonus))"


subsection \<open>Cues and the Beat Aligner\<close>

text \<open>A cue as \<open>parseSrt\<close> returns it. The subtitle library that \<open>parseSrt\<close> wraps is not
  part of the repository, so the aligners are modelled from the parsed cue list on.
  The field \<open>text\<close> of the source is \<open>ctext\<close> here (\<open>text\<close> is an Isar keyword).\<close>

record cue =
  index :: string
  startTime :: rat
  endTime :: rat
  ctext :: string

text \<open>One entry of \<open>mapping\<close>. Fields that an entry of the source does not carry
  (\<open>cueId\<close>, \<open>time\<close>, \<open>skipped\<close>) are \<open>None\<close>.\<close>

record beatMatch =
  beatIdx :: nat
  cueIdx :: "nat option"
  cueId :: "string option"
  score :: int
  beatText :: string
  cueText :: "string option"
  time :: "rat option"
  skipped :: "string option"

text \<open>An element of the \<open>times\<close> array of \<open>interpolateMissing\<close>: \<open>null\<close>, a number, or
  something that is neither (\<open>undefined\<close>, an array hole, \<open>NaN\<close>): all three of the latter
  differ from \<open>null\<close> and turn every sum they enter into \<open>NaN\<close>.\<close>

datatype cell = Null | NotNumber | Num rat

text \<open>The object that \<open>mapSrtToBeatsIntelligent\<close> returns; its field \<open>method\<close> is
  \<open>matchMethod\<close> here, and \<open>matchedCount\<close> is \<open>None\<close> in the fallback result, which has no
  such field.\<close>

record beatResult =
  beatTimes :: "cell list"
  cueCount :: nat
  beatCount :: nat
  matched :: bool
  matchedCount :: "nat option"
  cues :: "cue list"
  mapping :: "beatMatch list option"
  matchMethod :: string

definition mathRound :: "rat \<Rightarrow> int" where
  "mathRound x = \<lfloor>x + 1 / 2\<rfloor>"

text \<open>The body of the loop over \<open>cueIdx\<close>, up to the comparison with \<open>bestScore\<close>: the score
  of the cue alone and of the cue joined with its next one and two neighbours, each raised
  to 0.25 when the beat text occurs literally and has at least 3 characters.\<close>

definition containmentBonus :: "string \<Rightarrow> string \<Rightarrow> rat \<Rightarrow> rat" where
  "containmentBonus btext cand sc =
     (if includesStr cand btext \<and> length btext \<ge> 3 then max sc (1 / 4) else sc)"

definition cueScore :: "string list \<Rightarrow> nat \<Rightarrow> string \<Rightarrow> nat \<Rightarrow> rat" where
  "cueScore cueTexts n btext ci =
     (let score0 = containmentBonus btext (cueTexts ! ci)
                     (similarity btext (cueTexts ! ci));
          score1 =
            (if ci + 1 < n then
               let combined2 = cueTexts ! ci @ '' '' @ cueTexts ! (ci + 1);
                   combinedScore = containmentBonus btext combined2
                                     (similarity btext combined2)
               in max score0 combinedScore
             else score0);
          score2 =
            (if ci + 2 < n then
               let combined3 = cueTexts ! ci @ '' '' @ cueTexts ! (ci + 1)
                                 @ '' '' @ cueTexts ! (ci + 2);
                   combinedScore = containmentBonus btext combined3
                                     (similarity btext combined3)
               in max score1 combinedScore
             else score1)
      in score2)"

text \<open>One round of the loop over \<open>cueIdx\<close> (here \<open>ci\<close>) on the pair \<open>(bestIdx, bestScore)\<close>.\<close>

definition scanStep :: "string list \<Rightarrow> nat \<Rightarrow> string \<Rightarrow> int \<times> rat \<Rightarrow> nat \<Rightarrow> int \<times> rat" where
  "scanStep cueTexts n btext best ci =
     (let sc = cueScore cueTexts n btext ci
      in if sc > snd best then (int ci, sc) else best)"

text \<open>\<open>for (let cueIdx = searchStart; cueIdx < cues.length; cueIdx++)\<close>, from
  \<open>bestIdx = -1\<close>, \<open>bestScore = 0\<close>.\<close>

definition bestCandidate :: "string list \<Rightarrow> nat \<Rightarrow> string \<Rightarrow> nat \<Rightarrow> int \<times> rat" where
  "bestCandidate cueTexts n btext searchStart =
     foldl (scanStep cueTexts n btext) (-1, 0) [searchStart..<n]"

text \<open>\<open>beatTypes ? beatTypes[beatIdx] : null\<close>; a read past the end gives \<open>undefined\<close>,
  which like \<open>null\<close> equals none of the type names.\<close>

definition beatTypeAt :: "string list option \<Rightarrow> nat \<Rightarrow> string option" where
  "beatTypeAt beatTypes bi =
     (case beatTypes of
        None \<Rightarrow> None
      | Some ts \<Rightarrow> (if bi < length ts then Some (ts ! bi) else None))"

definition threshold :: "string option \<Rightarrow> rat" where
  "threshold beatType = (if beatType = Some ''label'' then 8 / 100 else 15 / 100)"

definition unmatchedBeat :: "nat \<Rightarrow> string \<Rightarrow> string option \<Rightarrow> beatMatch" where
  "unmatchedBeat i txt skip =
     \<lparr>beatIdx = i, cueIdx = None, cueId = None, score = 0, beatText = txt,
      cueText = None, time = None, skipped = skip\<rparr>"

text \<open>One round of the loop over \<open>beatIdx\<close> (here \<open>bi\<close>) on the state
  \<open>(searchStart, mapping)\<close>; \<open>btext\<close> is the normalized \<open>beatText\<close> of the source.\<close>

definition beatStep ::
  "cue list \<Rightarrow> string list \<Rightarrow> string list \<Rightarrow> string list option
     \<Rightarrow> nat \<times> beatMatch list \<Rightarrow> nat \<Rightarrow> nat \<times> beatMatch list" where
  "beatStep cs cueTexts beatTexts beatTypes st bi =
     (let searchStart = fst st; mp = snd st;
          beatType = beatTypeAt beatTypes bi
      in if beatType = Some ''silent'' \<or> beatType = Some ''data''
         then (searchStart, mp @ [unmatchedBeat bi (beatTexts ! bi) beatType])
         else
           let btext = normalize (beatTexts ! bi)
           in if btext = []
              then (searchStart, mp @ [unmatchedBeat bi (beatTexts ! bi) None])
              else
                let best = bestCandidate cueTexts (length cs) btext searchStart;
                    bestIdx = fst best; bestScore = snd best
                in if bestScore \<ge> threshold beatType \<and> bestIdx \<ge> 0
                   then (nat (bestIdx + 1),
                         mp @
                           [\<lparr>beatIdx = bi, cueIdx = Some (nat bestIdx),
                             cueId = Some (index (cs ! nat bestIdx)),
                             score = mathRound (bestScore * 100),
                             beatText = beatTexts ! bi,
                             cueText = Some (ctext (cs ! nat bestIdx)),
                             time = Some (startTime (cs ! nat bestIdx)),
                             skipped = None\<rparr>])
                   else (searchStart,
                         mp @ [unmatchedBeat bi (beatTexts ! bi) None]))"

text \<open>The loop over the beats, from \<open>searchStart = 0\<close> and the empty \<open>mapping\<close>, run for the
  first \<open>k\<close> beats.\<close>

definition alignLoop ::
  "cue list \<Rightarrow> string list \<Rightarrow> string list option \<Rightarrow> nat \<Rightarrow> nat \<times> beatMatch list" where
  "alignLoop cs beatTexts beatTypes k =
     foldl (beatStep cs (map (\<lambda>c. normalize (ctext c)) cs) beatTexts beatTypes) (0, []) [0..<k]"


subsection \<open>interpolateMissing\<close>

text \<open>\<open>times[i] = v\<close>: a store past the end grows the array and leaves holes.\<close>

definition store :: "cell list \<Rightarrow> nat \<Rightarrow> cell \<Rightarrow> cell list" where
  "store ts i v =
     (if i < length ts then ts[i := v]
      else ts @ replicate (i - length ts) NotNumber @ [v])"

text \<open>\<open>ToNumber\<close> of an array element: \<open>null\<close> counts as 0, and the result \<open>None\<close> stands
  for \<open>NaN\<close>. \<open>ofNumber\<close> goes back, and makes an absent \<open>time\<close> an \<open>undefined\<close> entry.\<close>

definition toNumber :: "cell \<Rightarrow> rat option" where
  "toNumber c = (case c of Null \<Rightarrow> Some 0 | NotNumber \<Rightarrow> None | Num x \<Rightarrow> Some x)"

definition ofNumber :: "rat option \<Rightarrow> cell" where
  "ofNumber v = (case v of None \<Rightarrow> NotNumber | Some x \<Rightarrow> Num x)"

text \<open>The first loop: \<open>if (m.cueIdx !== null) times[m.beatIdx] = m.time\<close>; an entry
  without \<open>time\<close> stores \<open>undefined\<close>.\<close>

definition fillStep :: "cell list \<Rightarrow> beatMatch \<Rightarrow> cell list" where
  "fillStep ts m = (if cueIdx m \<noteq> None then store ts (beatIdx m) (ofNumber (time m)) else ts)"

definition fillMatched :: "beatMatch list \<Rightarrow> cell list" where
  "fillMatched mp = foldl fillStep (replicate (length mp) Null) mp"

definition floorTimeOf :: "cue list \<Rightarrow> rat option \<Rightarrow> rat" where
  "floorTimeOf cs segStart =
     (case segStart of
        Some s \<Rightarrow> s
      | None \<Rightarrow> (if length cs > 0 then startTime (cs ! 0) else 0))"

definition ceilTimeOf :: "beatMatch list \<Rightarrow> cue list \<Rightarrow> rat option \<Rightarrow> rat" where
  "ceilTimeOf mp cs segEnd =
     (case segEnd of
        Some e \<Rightarrow> e
      | None \<Rightarrow> (if length cs > 0 then endTime (cs ! (length cs - 1))
                 else of_nat (length mp) * 2))"

text \<open>The backward and forward searches for a neighbour that is not \<open>null\<close>; \<open>-1\<close> when
  there is none.\<close>

definition prevIdxOf :: "cell list \<Rightarrow> nat \<Rightarrow> int" where
  "prevIdxOf ts i =
     (case List.find (\<lambda>j. ts ! j \<noteq> Null) (rev [0..<i]) of None \<Rightarrow> -1 | Some j \<Rightarrow> int j)"

definition nextIdxOf :: "cell list \<Rightarrow> nat \<Rightarrow> int" where
  "nextIdxOf ts i =
     (case List.find (\<lambda>j. ts ! j \<noteq> Null) [i + 1..<length ts] of None \<Rightarrow> -1 | Some j \<Rightarrow> int j)"

text \<open>The three branches of the interpolation; an operand that is not a number makes
  the result \<open>NaN\<close>.\<close>

definition betweenAnchors :: "cell list \<Rightarrow> nat \<Rightarrow> int \<Rightarrow> int \<Rightarrow> cell" where
  "betweenAnchors ts i prevIdx nextIdx =
     (let span = nextIdx - prevIdx;
          frac = of_int (int i - prevIdx) / of_int span
      in case (toNumber (ts ! nat prevIdx), toNumber (ts ! nat nextIdx)) of
           (Some tp, Some tn) \<Rightarrow> Num (tp + frac * (tn - tp))
         | _ \<Rightarrow> NotNumber)"

definition afterLastAnchor :: "rat \<Rightarrow> cell list \<Rightarrow> nat \<Rightarrow> int \<Rightarrow> cell" where
  "afterLastAnchor ceilTime ts i prevIdx =
     (let unmatchedAfter = int (length ts) - 1 - prevIdx
      in case toNumber (ts ! nat prevIdx) of
           Some tp \<Rightarrow>
             (let availableTime = ceilTime - tp;
                  step = (if unmatchedAfter > 0 then availableTime / of_int unmatchedAfter else 0)
              in Num (tp + of_int (int i - prevIdx) * step))
         | None \<Rightarrow> NotNumber)"

definition beforeFirstAnchor :: "rat \<Rightarrow> cell list \<Rightarrow> nat \<Rightarrow> int \<Rightarrow> cell" where
  "beforeFirstAnchor floorTime ts i nextIdx =
     (let unmatchedBefore = nextIdx
      in case toNumber (ts ! nat nextIdx) of
           Some tn \<Rightarrow>
             (let availableTime = tn - floorTime;
                  step = (if unmatchedBefore > 0 then availableTime / of_int unmatchedBefore else 0)
              in Num (max floorTime (tn - of_int (nextIdx - int i) * step)))
         | None \<Rightarrow> NotNumber)"

text \<open>One round of the interpolation loop. The array is updated in place, so a later
  round finds the entries that earlier rounds filled.\<close>

definition interpStep :: "rat \<Rightarrow> rat \<Rightarrow> cell list \<Rightarrow> nat \<Rightarrow> cell list" where
  "interpStep floorTime ceilTime ts i =
     (if ts ! i \<noteq> Null then ts
      else
        let prevIdx = prevIdxOf ts i; nextIdx = nextIdxOf ts i
        in if prevIdx \<ge> 0 \<and> nextIdx \<ge> 0 then ts[i := betweenAnchors ts i prevIdx nextIdx]
           else if prevIdx \<ge> 0 then ts[i := afterLastAnchor ceilTime ts i prevIdx]
           else if nextIdx \<ge> 0 then ts[i := beforeFirstAnchor floorTime ts i nextIdx]
           else ts)"

text \<open>\<open>t => Math.round(t * 1000) / 1000\<close>; \<open>null * 1000\<close> is 0.\<close>

definition roundMs :: "cell \<Rightarrow> cell" where
  "roundMs t =
     (case toNumber t of
        Some x \<Rightarrow> Num (of_int (mathRound (x * 1000)) / 1000)
      | None \<Rightarrow> NotNumber)"

text \<open>The even spread of the branch without anchors.\<close>

definition evenTime :: "rat \<Rightarrow> rat \<Rightarrow> nat \<Rightarrow> nat \<Rightarrow> rat" where
  "evenTime floorTime ceilTime total' i =
     (if total' = 1 then (floorTime + ceilTime) / 2
      else floorTime + (of_nat i / of_nat (total' - 1)) * (ceilTime - floorTime))"

text \<open>\<open>times.some(t => t !== null)\<close>. (\<open>some\<close> skips holes, but a hole only exists
  below an element that a store has put there, and that element is not \<open>null\<close>.)\<close>

definition hasAnchors :: "cell list \<Rightarrow> bool" where
  "hasAnchors ts = (\<exists>t \<in> set ts. t \<noteq> Null)"

definition interpolateMissing ::
  "beatMatch list \<Rightarrow> cue list \<Rightarrow> rat option \<Rightarrow> rat option \<Rightarrow> cell list" where
  "interpolateMissing mp cs segStart segEnd =
     (let times0 = fillMatched mp;
          floorTime = floorTimeOf cs segStart;
          ceilTime = ceilTimeOf mp cs segEnd
      in if \<not> hasAnchors times0
         then
           (let total' = length times0;
                times1 = map (\<lambda>i. Num (evenTime floorTime ceilTime total' i)) [0..<total']
            in map roundMs times1)
         else
           (let times1 = foldl (interpStep floorTime ceilTime) times0 [0..<length times0]
            in map roundMs times1))"

subsection \<open>mapSrtToBeatsIntelligent\<close>

text \<open>From the parsed cues on; \<open>beatTypes\<close>, \<open>segStart\<close> and \<open>segEnd\<close> are the fields of
  \<open>opts\<close>, \<open>None\<close> when absent. A missing \<open>beatTexts\<close> is the empty list.\<close>

definition mapSrtToBeatsIntelligent ::
  "cue list \<Rightarrow> string list \<Rightarrow> string list option \<Rightarrow> rat option \<Rightarrow> rat option \<Rightarrow> beatResult" where
  "mapSrtToBeatsIntelligent cs beatTexts beatTypes segStart segEnd =
     (if length beatTexts = 0
      then \<lparr>beatTimes = map (\<lambda>c. Num (startTime c)) cs, cueCount = length cs, beatCount = 0,
            matched = False, matchedCount = None, cues = cs, mapping = None,
            matchMethod = ''fallback''\<rparr>
      else
        let mp = snd (alignLoop cs beatTexts beatTypes (length beatTexts));
            bts = interpolateMissing mp cs segStart segEnd;
            mc = length (filter (\<lambda>m. cueIdx m \<noteq> None) mp)
        in \<lparr>beatTimes = bts, cueCount = length cs, beatCount = length beatTexts,
            matched = (mc = length beatTexts), matchedCount = Some mc, cues = cs,
            mapping = Some mp, matchMethod = ''text-match''\<rparr>)"


subsection \<open>mapSrtToSegments, pass 1: the best window of each segment\<close>

record segment =
  num :: nat
  script :: string
  htmlFiles :: "string list"

text \<open>An entry of \<open>rawMatches\<close>, and an entry of \<open>segmentMatches\<close>, which adds the times.\<close>

record rawMatch =
  num :: nat
  matched :: bool
  confidence :: int
  startCueIdx :: "nat option"
  endCueIdx :: "nat option"
  htmlFiles :: "string list"

record segmentMatch = rawMatch +
  startTime :: "rat option"
  endTime :: "rat option"

record segResult =
  segmentMatches :: "segmentMatch list"
  matchedCount :: nat
  totalSegments :: nat
  cueCount :: nat
  cues :: "cue list"

definition stopWords :: "string list" where
  "stopWords =
     [''the'', ''a'', ''an'', ''is'', ''it'', ''in'', ''on'', ''to'', ''of'', ''and'', ''or'', ''but'',
      ''that'', ''this'', ''with'', ''for'', ''not'', ''are'', ''was'', ''be'', ''has'', ''had'',
      ''do'', ''does'', ''did'', ''will'', ''would'', ''could'', ''should'', ''can'', ''may'',
      ''i'', ''you'', ''he'', ''she'', ''we'', ''they'', ''my'', ''your'', ''his'', ''her'', ''our'',
      ''their'', ''its'', ''if'', ''so'', ''at'', ''by'', ''from'', ''up'', ''out'', ''no'', ''yes'',
      ''just'', ''all'', ''more'', ''some'', ''than'', ''then'', ''when'', ''what'', ''how'',
      ''about'', ''into'', ''over'', ''after'', ''before'', ''between'', ''through'']"

definition isContentWord :: "string \<Rightarrow> bool" where
  "isContentWord w = (length w > 2 \<and> w \<notin> set stopWords)"

definition contentWords :: "string list \<Rightarrow> string list" where
  "contentWords wordSet = filter isContentWord wordSet"

text \<open>The variables of the two window loops. \<open>bestScore\<close>, \<open>bestStart\<close> and \<open>bestEnd\<close>
  live across all start positions; the other four are fresh at each start.\<close>

record window =
  windowWords :: "string list"
  windowContentWords :: "string list"
  peakScore :: rat
  noImprovementCount :: nat
  bestScore :: rat
  bestStart :: int
  bestEnd :: int

text \<open>\<open>for (const w of cueWordSets[end]) { windowWords.add(w); if (...) windowContentWords.add(w) }\<close>\<close>

definition addCueWords :: "string list \<Rightarrow> window \<Rightarrow> window" where
  "addCueWords ws st =
     st\<lparr>windowWords := foldl (\<lambda>acc w. List.insert w acc) (windowWords st) ws,
        windowContentWords :=
          foldl (\<lambda>acc w. if isContentWord w then List.insert w acc else acc)
            (windowContentWords st) ws\<rparr>"

definition windowScore :: "string list \<Rightarrow> string list \<Rightarrow> window \<Rightarrow> rat" where
  "windowScore scriptWordsFull scriptWordsContent st =
     (let srtCoveredByScript = countIn (windowContentWords st) scriptWordsFull;
          srtCoverage = of_nat srtCoveredByScript / of_nat (length (windowContentWords st));
          scriptCoveredBySrt = countIn scriptWordsContent (windowWords st);
          scriptCoverage =
            (if length scriptWordsContent > 0
             then of_nat scriptCoveredBySrt / of_nat (length scriptWordsContent)
             else 0)
      in srtCoverage * (6 / 10) + scriptCoverage * (4 / 10))"

definition trackScore :: "nat \<Rightarrow> nat \<Rightarrow> rat \<Rightarrow> window \<Rightarrow> window" where
  "trackScore start en sc st =
     (let st1 = (if sc > peakScore st then st\<lparr>peakScore := sc, noImprovementCount := 0\<rparr>
                 else st\<lparr>noImprovementCount := noImprovementCount st + 1\<rparr>)
      in if sc > bestScore st1
         then st1\<lparr>bestScore := sc, bestStart := int start, bestEnd := int en\<rparr>
         else st1)"

text \<open>The loop over \<open>end\<close> (here \<open>en\<close>), run on the list of its values
  \<open>[start ..< min cues.length (start + 40)]\<close>; \<open>continue\<close> goes on with the next value,
  \<open>break\<close> returns.\<close>

fun windowLoop ::
  "string list list \<Rightarrow> string list \<Rightarrow> string list \<Rightarrow> nat \<Rightarrow> nat list \<Rightarrow> window \<Rightarrow> window" where
  "windowLoop cueWordSets scriptWordsFull scriptWordsContent start [] st = st"
| "windowLoop cueWordSets scriptWordsFull scriptWordsContent start (en # ens) st =
     (let st1 = addCueWords (cueWordSets ! en) st
      in if length (windowContentWords st1) = 0
         then windowLoop cueWordSets scriptWordsFull scriptWordsContent start ens st1
         else
           let sc = windowScore scriptWordsFull scriptWordsContent st1;
               st2 = trackScore start en sc st1
           in if noImprovementCount st2 > 10 then st2
              else windowLoop cueWordSets scriptWordsFull scriptWordsContent start ens st2)"

text \<open>One round of the loop over \<open>start\<close>.\<close>

definition startStep ::
  "string list list \<Rightarrow> string list \<Rightarrow> string list \<Rightarrow> nat \<Rightarrow> window \<Rightarrow> nat \<Rightarrow> window" where
  "startStep cueWordSets scriptWordsFull scriptWordsContent n st start =
     windowLoop cueWordSets scriptWordsFull scriptWordsContent start
       [start..<min n (start + 40)]
       (st\<lparr>windowWords := [], windowContentWords := [], peakScore := 0,
           noImprovementCount := 0\<rparr>)"

definition bestWindow ::
  "string list list \<Rightarrow> string list \<Rightarrow> string list \<Rightarrow> nat \<Rightarrow> window" where
  "bestWindow cueWordSets scriptWordsFull scriptWordsContent n =
     foldl (startStep cueWordSets scriptWordsFull scriptWordsContent n)
       \<lparr>windowWords = [], windowContentWords = [], peakScore = 0, noImprovementCount = 0,
        bestScore = 0, bestStart = -1, bestEnd = -1\<rparr>
       [0..<n]"

text \<open>The body of the loop over the segments.\<close>

definition rawMatchOf :: "cue list \<Rightarrow> segment \<Rightarrow> rawMatch" where
  "rawMatchOf cs seg =
     (let scriptNorm = normalize (script seg)
      in if scriptNorm = [] \<or> length scriptNorm < 10
         then \<lparr>num = segment.num seg, matched = False, confidence = 0, startCueIdx = None,
               endCueIdx = None, htmlFiles = segment.htmlFiles seg\<rparr>
         else
           let cueWordSets = map (\<lambda>c. remdups (wordsOf (normalize (ctext c)))) cs;
               scriptWordsFull = remdups (wordsOf scriptNorm);
               scriptWordsContent = contentWords scriptWordsFull;
               b = bestWindow cueWordSets scriptWordsFull scriptWordsContent (length cs);
               isMatched = (bestScore b \<ge> 1 / 4 \<and> bestStart b \<ge> 0)
           in \<lparr>num = segment.num seg, matched = isMatched,
               confidence = mathRound (bestScore b * 100),
               startCueIdx = (if isMatched then Some (nat (bestStart b)) else None),
               endCueIdx = (if isMatched then Some (nat (bestEnd b)) else None),
               htmlFiles = segment.htmlFiles seg\<rparr>)"

definition pass1 :: "cue list \<Rightarrow> segment list \<Rightarrow> rawMatch list" where
  "pass1 cs segments = map (rawMatchOf cs) segments"


subsection \<open>mapSrtToSegments, pass 2: conflict resolution\<close>

text \<open>\<open>{ start, end }\<close> (\<open>end\<close> is an Isar keyword). A cue index that is \<open>null\<close> compares
  as 0.\<close>

record range =
  rangeStart :: nat
  rangeEnd :: nat

definition idxNumber :: "nat option \<Rightarrow> nat" where
  "idxNumber v = (case v of None \<Rightarrow> 0 | Some k \<Rightarrow> k)"

text \<open>\<open>rawMatches.map((m, i) => ({ idx: i, ...m })).filter(m => m.matched)
  .sort((a, b) => b.confidence - a.confidence)\<close>; the sort is stable.\<close>

definition matchedIdxs :: "rawMatch list \<Rightarrow> (nat \<times> rawMatch) list" where
  "matchedIdxs rawMatches =
     sort_key (\<lambda>m. - confidence (snd m))
       (filter (\<lambda>m. matched (snd m)) (zip [0..<length rawMatches] rawMatches))"

text \<open>The loop that computes \<open>valid\<close>, run on the list of the values of \<open>i\<close>;
  \<open>break\<close> returns \<open>False\<close>.\<close>

fun checkValid :: "range option list \<Rightarrow> nat \<Rightarrow> range \<Rightarrow> nat list \<Rightarrow> bool" where
  "checkValid assigned idx r [] = True"
| "checkValid assigned idx r (i # is) =
     (case assigned ! i of
        None \<Rightarrow> checkValid assigned idx r is
      | Some a \<Rightarrow>
          if i < idx then
            (if rangeEnd a \<ge> rangeStart r then False else checkValid assigned idx r is)
          else if i > idx then
            (if rangeStart a \<le> rangeEnd r then False else checkValid assigned idx r is)
          else checkValid assigned idx r is)"

text \<open>One round of the loop over \<open>matchedIdxs\<close> on the state \<open>(assigned, rawMatches)\<close>;
  \<open>n\<close> is \<open>segments.length\<close>.\<close>

definition resolveStep ::
  "nat \<Rightarrow> range option list \<times> rawMatch list \<Rightarrow> nat \<times> rawMatch
     \<Rightarrow> range option list \<times> rawMatch list" where
  "resolveStep n st m =
     (let assigned = fst st; rawMatches = snd st; idx = fst m;
          r = \<lparr>rangeStart = idxNumber (startCueIdx (snd m)),
               rangeEnd = idxNumber (endCueIdx (snd m))\<rparr>
      in if checkValid assigned idx r [0..<n]
         then (assigned[idx := Some r], rawMatches)
         else (assigned,
               rawMatches[idx := (rawMatches ! idx)\<lparr>matched := False, startCueIdx := None,
                                                   endCueIdx := None\<rparr>]))"

definition pass2 :: "nat \<Rightarrow> rawMatch list \<Rightarrow> range option list \<times> rawMatch list" where
  "pass2 n rawMatches =
     foldl (resolveStep n) (replicate n None, rawMatches) (matchedIdxs rawMatches)"

subsection \<open>Segment times and interpolateSegmentTiming\<close>

text \<open>\<open>rawMatches.map(m => ({ ..., startTime: m.startCueIdx != null ?
  cues[m.startCueIdx].startTime : null, ... }))\<close>\<close>

definition withTimes :: "cue list \<Rightarrow> rawMatch \<Rightarrow> segmentMatch" where
  "withTimes cs m =
     \<lparr>num = rawMatch.num m, matched = matched m, confidence = confidence m,
      startCueIdx = startCueIdx m, endCueIdx = endCueIdx m,
      htmlFiles = rawMatch.htmlFiles m,
      startTime = (case startCueIdx m of
                     Some k \<Rightarrow> Some (cue.startTime (cs ! k)) | None \<Rightarrow> None),
      endTime = (case endCueIdx m of
                   Some k \<Rightarrow> Some (cue.endTime (cs ! k)) | None \<Rightarrow> None)\<rparr>"

text \<open>A time that is \<open>null\<close> counts as 0 in a sum.\<close>

definition timeNumber :: "rat option \<Rightarrow> rat" where
  "timeNumber v = (case v of None \<Rightarrow> 0 | Some x \<Rightarrow> x)"

definition prevSegOf :: "segmentMatch list \<Rightarrow> nat \<Rightarrow> int" where
  "prevSegOf ms i =
     (case List.find (\<lambda>j. startTime (ms ! j) \<noteq> None) (rev [0..<i]) of
        None \<Rightarrow> -1 | Some j \<Rightarrow> int j)"

definition nextSegOf :: "segmentMatch list \<Rightarrow> nat \<Rightarrow> int" where
  "nextSegOf ms i =
     (case List.find (\<lambda>j. startTime (ms ! j) \<noteq> None) [i + 1..<length ms] of
        None \<Rightarrow> -1 | Some j \<Rightarrow> int j)"

definition setTimes :: "segmentMatch list \<Rightarrow> nat \<Rightarrow> rat \<Rightarrow> rat \<Rightarrow> segmentMatch list" where
  "setTimes ms i st en = ms[i := (ms ! i)\<lparr>startTime := Some st, endTime := Some en\<rparr>]"

text \<open>One round of the loop of \<open>interpolateSegmentTiming\<close>; the list is updated in place.\<close>

definition segStep :: "segmentMatch list \<Rightarrow> nat \<Rightarrow> segmentMatch list" where
  "segStep ms i =
     (if startTime (ms ! i) \<noteq> None then ms
      else
        let prevIdx = prevSegOf ms i; nextIdx = nextSegOf ms i
        in if prevIdx \<ge> 0 \<and> nextIdx \<ge> 0 then
             (let span = nextIdx - prevIdx;
                  frac = of_int (int i - prevIdx) / of_int span;
                  prevEnd = timeNumber (endTime (ms ! nat prevIdx));
                  nextStart = timeNumber (startTime (ms ! nat nextIdx))
              in setTimes ms i (prevEnd + frac * (nextStart - prevEnd))
                   (prevEnd + (of_int (int i - prevIdx + 1) / of_int span) * (nextStart - prevEnd)))
           else if prevIdx \<ge> 0 then
             (let gap = 3;
                  st = timeNumber (endTime (ms ! nat prevIdx)) + of_int (int i - prevIdx) * gap
              in setTimes ms i st (st + gap))
           else if nextIdx \<ge> 0 then
             (let gap = 3;
                  st = max 0 (timeNumber (startTime (ms ! nat nextIdx))
                              - of_int (nextIdx - int i) * gap)
              in setTimes ms i st (st + gap))
           else setTimes ms i (of_nat i * 3) ((of_nat i + 1) * 3))"

definition interpolateSegmentTiming :: "segmentMatch list \<Rightarrow> segmentMatch list" where
  "interpolateSegmentTiming matches = foldl segStep matches [0..<length matches]"

text \<open>From the parsed cues on.\<close>

definition mapSrtToSegments :: "cue list \<Rightarrow> segment list \<Rightarrow> segResult" where
  "mapSrtToSegments cs segments =
     (let rawMatches = snd (pass2 (length segments) (pass1 cs segments));
          sms = interpolateSegmentTiming (map (withTimes cs) rawMatches)
      in \<lparr>segmentMatches = sms,
          matchedCount = length (filter matched sms),
          totalSegments = length segments,
          cueCount = length cs,
          cues = cs\<rparr>)"


subsection \<open>timeToSeconds\<close>

text \<open>The result of \<open>parseInt\<close>, \<open>parseFloat\<close> and of sums and products of them: \<open>NaN\<close>,
  an infinity, or a finite number (the two zeros are one).\<close>

datatype jsnum = NaN | PosInf | NegInf | Fin rat

text \<open>The Number value of a rational: rounding to the nearest double gives an infinity
  from \<open>2^1024 - 2^970\<close> on and 0 up to \<open>2^-1075\<close>. In between the model keeps the
  rational, which stands for the double next to it.\<close>

definition jsNumber :: "rat \<Rightarrow> jsnum" where
  "jsNumber x =
     (if x \<ge> 2 ^ 1024 - 2 ^ 970 then PosInf
      else if x \<le> - (2 ^ 1024 - 2 ^ 970) then NegInf
      else if \<bar>x\<bar> \<le> 1 / 2 ^ 1075 then Fin 0
      else Fin x)"

definition jsNeg :: "jsnum \<Rightarrow> jsnum" where
  "jsNeg v = (case v of NaN \<Rightarrow> NaN | PosInf \<Rightarrow> NegInf | NegInf \<Rightarrow> PosInf | Fin x \<Rightarrow> Fin (- x))"

fun jsAdd :: "jsnum \<Rightarrow> jsnum \<Rightarrow> jsnum" where
  "jsAdd NaN v = NaN"
| "jsAdd u NaN = NaN"
| "jsAdd (Fin x) (Fin y) = jsNumber (x + y)"
| "jsAdd PosInf NegInf = NaN"
| "jsAdd NegInf PosInf = NaN"
| "jsAdd PosInf v = PosInf"
| "jsAdd NegInf v = NegInf"
| "jsAdd (Fin x) v = v"

fun jsMul :: "jsnum \<Rightarrow> jsnum \<Rightarrow> jsnum" where
  "jsMul NaN v = NaN"
| "jsMul u NaN = NaN"
| "jsMul (Fin x) (Fin y) = jsNumber (x * y)"
| "jsMul (Fin x) v = (if x = 0 then NaN else if x > 0 then v else jsNeg v)"
| "jsMul u (Fin y) = (if y = 0 then NaN else if y > 0 then u else jsNeg u)"
| "jsMul PosInf v = v"
| "jsMul NegInf v = jsNeg v"

definition isDigit :: "nat \<Rightarrow> bool" where
  "isDigit u = (48 \<le> u \<and> u \<le> 57)"

text \<open>The value of a string of decimal digits.\<close>

definition digitsValue :: "nat list \<Rightarrow> nat" where
  "digitsValue ds = foldl (\<lambda>acc d. 10 * acc + (d - 48)) 0 ds"

text \<open>\<open>parseInt(s, 10)\<close>: leading white space is skipped, then an optional sign, then the
  longest run of digits; \<open>NaN\<close> when there is no digit.\<close>

definition parseInt10 :: "nat list \<Rightarrow> jsnum" where
  "parseInt10 s =
     (let t = dropWhile isSpaceUnit s;
          neg = (t \<noteq> [] \<and> hd t = code (CHR ''-''));
          u = (if t \<noteq> [] \<and> (hd t = code (CHR ''-'') \<or> hd t = code (CHR ''+'')) then tl t else t);
          ds = takeWhile isDigit u
      in if ds = [] then NaN
         else if neg then jsNeg (jsNumber (of_nat (digitsValue ds)))
         else jsNumber (of_nat (digitsValue ds)))"

text \<open>The exponent part \<open>e\<close>/\<open>E\<close>, optional sign, digits; 0 when what follows the mantissa
  is no complete exponent.\<close>

definition exponentOf :: "nat list \<Rightarrow> int" where
  "exponentOf r =
     (if r \<noteq> [] \<and> (hd r = code (CHR ''e'') \<or> hd r = code (CHR ''E'')) then
        (let r1 = tl r;
             neg = (r1 \<noteq> [] \<and> hd r1 = code (CHR ''-''));
             r2 = (if r1 \<noteq> [] \<and> (hd r1 = code (CHR ''-'') \<or> hd r1 = code (CHR ''+''))
                   then tl r1 else r1);
             ds = takeWhile isDigit r2
         in if ds = [] then 0
            else if neg then - int (digitsValue ds) else int (digitsValue ds))
      else 0)"

definition scale10 :: "rat \<Rightarrow> int \<Rightarrow> rat" where
  "scale10 x e = (if e \<ge> 0 then x * 10 ^ nat e else x / 10 ^ nat (- e))"

text \<open>The longest prefix that is an unsigned \<open>StrDecimalLiteral\<close>: \<open>Infinity\<close>, or digits
  with an optional fraction, or a fraction alone, each with an optional exponent.\<close>

definition parseUnsigned :: "nat list \<Rightarrow> jsnum" where
  "parseUnsigned s =
     (if startsWith s (unitsOf ''Infinity'') then PosInf
      else
        let ip = takeWhile isDigit s; r1 = dropWhile isDigit s
        in if r1 \<noteq> [] \<and> hd r1 = code (CHR ''.'')
           then
             (let fp = takeWhile isDigit (tl r1); r2 = dropWhile isDigit (tl r1)
              in if ip = [] \<and> fp = [] then NaN
                 else jsNumber (scale10
                        (of_nat (digitsValue ip)
                           + of_nat (digitsValue fp) / 10 ^ length fp)
                        (exponentOf r2)))
           else if ip = [] then NaN
           else jsNumber (scale10 (of_nat (digitsValue ip)) (exponentOf r1)))"

text \<open>\<open>parseFloat(s)\<close>\<close>

definition parseFloat :: "nat list \<Rightarrow> jsnum" where
  "parseFloat s =
     (let t = dropWhile isSpaceUnit s
      in if t \<noteq> [] \<and> hd t = code (CHR ''-'') then jsNeg (parseUnsigned (tl t))
         else if t \<noteq> [] \<and> hd t = code (CHR ''+'') then parseUnsigned (tl t)
         else parseUnsigned t)"

text \<open>\<open>s.replace(',', '.')\<close> with a string pattern replaces the first occurrence only.\<close>

fun replaceFirstComma :: "nat list \<Rightarrow> nat list" where
  "replaceFirstComma [] = []"
| "replaceFirstComma (c # cs) =
     (if c = code (CHR '','') then code (CHR ''.'') # cs else c # replaceFirstComma cs)"

text \<open>\<open>v || 0\<close>: \<open>NaN\<close> and zero are falsy.\<close>

definition orZero :: "jsnum \<Rightarrow> jsnum" where
  "orZero v = (if v = NaN \<or> v = Fin 0 then Fin 0 else v)"

definition timeToSeconds :: "nat list \<Rightarrow> jsnum" where
  "timeToSeconds timeStr =
     (if timeStr = [] then Fin 0
      else
        let clean = replaceFirstComma timeStr;
            parts = split (code (CHR '':'')) clean
        in if length parts = 3 then
             (let hours = parseInt10 (parts ! 0);
                  minutes = parseInt10 (parts ! 1);
                  seconds = parseFloat (parts ! 2)
              in jsAdd (jsAdd (jsMul hours (Fin 3600)) (jsMul minutes (Fin 60))) seconds)
           else orZero (parseFloat clean))"


subsection \<open>Notions used in the statements and proofs\<close>

text \<open>A string of code units as \<open>collapseSpacesUnits\<close> leaves it: every white-space code
  unit is a space and is not followed by another one.\<close>

fun collapsedUnits :: "nat list \<Rightarrow> bool" where
  "collapsedUnits [] = True"
| "collapsedUnits [u] = (isSpaceUnit u \<longrightarrow> u = 32)"
| "collapsedUnits (u # v # us) =
     ((isSpaceUnit u \<longrightarrow> u = 32 \<and> \<not> isSpaceUnit v) \<and> collapsedUnits (v # us))"

text \<open>A lowercase mapping to run examples with. It has the shape of \<open>toLowerCase\<close>: A-Z and
  the Latin-1 capitals move up by 32, the capital I with a dot (U+0130) becomes \<open>i\<close> and
  U+0307, the Kelvin sign (U+212A) becomes \<open>k\<close>, every other code unit stays.\<close>

definition lowerUnit :: "nat \<Rightarrow> nat list" where
  "lowerUnit u =
     (if (65 \<le> u \<and> u \<le> 90) \<or> (192 \<le> u \<and> u \<le> 222 \<and> u \<noteq> 215) then [u + 32]
      else if u = 304 then [105, 775]
      else if u = 8490 then [107]
      else [u])"

definition lowerSample :: "nat list \<Rightarrow> nat list" where
  "lowerSample s = concat (map lowerUnit s)"

text \<open>What the loop over \<open>cueIdx\<close> keeps: either nothing was found (\<open>bestIdx = -1\<close>,
  \<open>bestScore = 0\<close>), or \<open>bestIdx\<close> is a scanned index and \<open>bestScore\<close> is positive.\<close>

definition scanInv :: "nat \<Rightarrow> nat \<Rightarrow> int \<times> rat \<Rightarrow> bool" where
  "scanInv lo hi b = ((fst b = -1 \<and> snd b = 0) \<or> (int lo \<le> fst b \<and> fst b < int hi \<and> snd b > 0))"

text \<open>The matched cue indices of a mapping increase strictly in beat order.\<close>

definition increasingCues :: "beatMatch list \<Rightarrow> bool" where
  "increasingCues mp =
     (\<forall>i j a b. i < j \<and> j < length mp \<and> cueIdx (mp ! i) = Some a \<and> cueIdx (mp ! j) = Some b
        \<longrightarrow> a < b)"

text \<open>An entry as the aligner builds it at position \<open>i\<close>: \<open>beatIdx\<close> is the position, and
  \<open>time\<close> is the start of the matched cue, present exactly when \<open>cueIdx\<close> is.\<close>

definition wfEntry :: "cue list \<Rightarrow> nat \<Rightarrow> beatMatch \<Rightarrow> bool" where
  "wfEntry cs i m =
     (beatIdx m = i \<and>
      (case cueIdx m of
         None \<Rightarrow> time m = None
       | Some c \<Rightarrow> c < length cs \<and> time m = Some (cue.startTime (cs ! c))))"

definition wfMapping :: "cue list \<Rightarrow> beatMatch list \<Rightarrow> bool" where
  "wfMapping cs mp = (\<forall>i < length mp. wfEntry cs i (mp ! i))"

text \<open>What the loop over the beats keeps: besides the two properties above, every matched
  cue index lies below \<open>searchStart\<close>.\<close>

definition alignInv :: "cue list \<Rightarrow> nat \<times> beatMatch list \<Rightarrow> bool" where
  "alignInv cs st =
     (wfMapping cs (snd st) \<and> increasingCues (snd st)
      \<and> (\<forall>m \<in> set (snd st). \<forall>c. cueIdx m = Some c \<longrightarrow> c < fst st))"

text \<open>The cues and beats of the first scenario of the specification.\<close>

definition wcues :: "cue list" where
  "wcues = [\<lparr>index = ''1'', cue.startTime = 0, cue.endTime = 3, ctext = ''Let's talk apples''\<rparr>,
            \<lparr>index = ''2'', cue.startTime = 3, cue.endTime = 6, ctext = ''Now bananas''\<rparr>,
            \<lparr>index = ''3'', cue.startTime = 6, cue.endTime = 9, ctext = ''Finally cherries''\<rparr>]"

definition wbeats :: "string list" where
  "wbeats = [''Apples'', ''Bananas'', ''Cherries'']"

text \<open>The entry of \<open>times\<close> that the first loop of \<open>interpolateMissing\<close> leaves for a
  mapping entry.\<close>

definition anchorCell :: "beatMatch \<Rightarrow> cell" where
  "anchorCell m = (if cueIdx m \<noteq> None then ofNumber (time m) else Null)"

text \<open>Three segments whose scripts are shorter than 10 characters: none is matched.\<close>

definition wsegs :: "segment list" where
  "wsegs = [\<lparr>segment.num = 1, script = [], segment.htmlFiles = []\<rparr>,
            \<lparr>segment.num = 2, script = ''intro'', segment.htmlFiles = []\<rparr>,
            \<lparr>segment.num = 3, script = [], segment.htmlFiles = []\<rparr>]"

text \<open>What the window loops keep: no window was found yet, or the best window lies inside
  the cue list with its start not after its end.\<close>

definition winInv :: "nat \<Rightarrow> window \<Rightarrow> bool" where
  "winInv n st =
     ((bestStart st = -1 \<and> bestEnd st = -1)
      \<or> (0 \<le> bestStart st \<and> bestStart st \<le> bestEnd st \<and> bestEnd st < int n))"

text \<open>A raw match whose cue range is well formed: both indices are set when it is matched,
  in order and inside the cue list, and both are \<open>null\<close> when it is not.\<close>

definition wfRaw :: "nat \<Rightarrow> rawMatch \<Rightarrow> bool" where
  "wfRaw n m =
     (if matched m
      then (\<exists>s e. startCueIdx m = Some s \<and> endCueIdx m = Some e \<and> s \<le> e \<and> e < n)
      else startCueIdx m = None \<and> endCueIdx m = None)"

text \<open>The \<open>range\<close> that pass 2 builds from a raw match.\<close>

definition rangeOf :: "rawMatch \<Rightarrow> range" where
  "rangeOf m = \<lparr>rangeStart = idxNumber (startCueIdx m), rangeEnd = idxNumber (endCueIdx m)\<rparr>"

text \<open>The accepted ranges are in segment order: an earlier one ends before a later one
  starts.\<close>

definition orderedRanges :: "range option list \<Rightarrow> bool" where
  "orderedRanges assigned =
     (\<forall>i j a b. i < j \<and> j < length assigned \<and> assigned ! i = Some a \<and> assigned ! j = Some b
        \<longrightarrow> rangeEnd a < rangeStart b)"

text \<open>What the loop of pass 2 keeps, with \<open>ms\<close> the entries of \<open>matchedIdxs\<close> still to come:
  the accepted ranges are ordered and are the ranges of their raw matches; a raw match that
  is still matched is accepted or still to come; an entry still to come is not accepted
  yet and is its raw match.\<close>

definition resolveInv ::
  "nat \<Rightarrow> nat \<Rightarrow> range option list \<times> rawMatch list \<Rightarrow> (nat \<times> rawMatch) list \<Rightarrow> bool" where
  "resolveInv n cn st ms =
     (length (fst st) = n \<and> length (snd st) = n
      \<and> orderedRanges (fst st)
      \<and> (\<forall>i<n. \<forall>r. fst st ! i = Some r \<longrightarrow> r = rangeOf (snd st ! i))
      \<and> (\<forall>i<n. matched (snd st ! i) \<longrightarrow> fst st ! i \<noteq> None \<or> i \<in> fst ` set ms)
      \<and> (\<forall>p\<in>set ms. fst p < n \<and> snd p = snd st ! fst p \<and> fst st ! fst p = None)
      \<and> distinct (map fst ms)
      \<and> (\<forall>i<n. wfRaw cn (snd st ! i)))"

text \<open>The two times of a segment match are both set or both \<open>null\<close>.\<close>

definition pairedTimes :: "segmentMatch \<Rightarrow> bool" where
  "pairedTimes m = (segmentMatch.startTime m = None \<longleftrightarrow> segmentMatch.endTime m = None)"

text \<open>The fields of a segment match that \<open>interpolateSegmentTiming\<close> does not touch.\<close>

definition rawPart :: "segmentMatch \<Rightarrow> bool \<times> nat option \<times> nat option" where
  "rawPart m = (matched m, startCueIdx m, endCueIdx m)"

text \<open>Three cues and three segment scripts; the third script matches the first cue, out of
  order.\<close>

definition wcues2 :: "cue list" where
  "wcues2 = [\<lparr>index = ''1'', cue.startTime = 0, cue.endTime = 3, ctext = ''Let's talk apples and oranges''\<rparr>,
             \<lparr>index = ''2'', cue.startTime = 3, cue.endTime = 6, ctext = ''Now bananas are yellow''\<rparr>,
             \<lparr>index = ''3'', cue.startTime = 6, cue.endTime = 9, ctext = ''Finally cherries are red''\<rparr>]"

definition wsegs2 :: "segment list" where
  "wsegs2 = [\<lparr>segment.num = 1, script = ''bananas are yellow'', segment.htmlFiles = []\<rparr>,
             \<lparr>segment.num = 2, script = ''cherries are red indeed'', segment.htmlFiles = []\<rparr>,
             \<lparr>segment.num = 3, script = ''apples and oranges'', segment.htmlFiles = []\<rparr>]"

text \<open>Properties of a \<open>times\<close> array: no entry is \<open>undefined\<close> or \<open>NaN\<close>; the numbers in it
  are non-decreasing from left to right; they lie between \<open>fl\<close> and \<open>ce\<close>.\<close>

definition numericCells :: "cell list \<Rightarrow> bool" where
  "numericCells ts = (\<forall>c\<in>set ts. c \<noteq> NotNumber)"

definition sortedCells :: "cell list \<Rightarrow> bool" where
  "sortedCells ts =
     (\<forall>i j a b. i < j \<and> j < length ts \<and> ts ! i = Num a \<and> ts ! j = Num b \<longrightarrow> a \<le> b)"

definition boundedCells :: "rat \<Rightarrow> rat \<Rightarrow> cell list \<Rightarrow> bool" where
  "boundedCells fl ce ts = (\<forall>i a. i < length ts \<and> ts ! i = Num a \<longrightarrow> fl \<le> a \<and> a \<le> ce)"

text \<open>A beat-time array that holds numbers only, in non-decreasing order.\<close>

definition nonDecreasing :: "cell list \<Rightarrow> bool" where
  "nonDecreasing ts =
     (\<forall>i j. i \<le> j \<and> j < length ts \<longrightarrow> (\<exists>a b. ts ! i = Num a \<and> ts ! j = Num b \<and> a \<le> b))"

text \<open>Beats of which the second matches no cue, and two cues whose times are out of
  order.\<close>

definition wbeats3 :: "string list" where
  "wbeats3 = [''Apples'', ''Xyzzy123'', ''Cherries'']"

definition ucues :: "cue list" where
  "ucues = [\<lparr>index = ''1'', cue.startTime = 5, cue.endTime = 6, ctext = ''apples''\<rparr>,
            \<lparr>index = ''2'', cue.startTime = 2, cue.endTime = 3, ctext = ''bananas''\<rparr>]"

text \<open>Two cues and two beats whose best score, 0.1, lies between the two thresholds of the
  Beat Aligner, with their beat types.\<close>

definition tcues :: "cue list" where
  "tcues = [\<lparr>index = ''1'', cue.startTime = 0, cue.endTime = 4, ctext = ''aa bb cc dd ee ff gg hh ii jj''\<rparr>,
            \<lparr>index = ''2'', cue.startTime = 4, cue.endTime = 8, ctext = ''aa bb cc dd ee ff gg hh ii jj''\<rparr>]"

definition tbeats :: "string list" where
  "tbeats = [''aa zz'', ''aa zz'']"

definition ttypes :: "string list" where
  "ttypes = [''label'', ''speech'']"

section \<open>Normalization\<close>

lemma code_space: "code (CHR '' '') = 32"
  by (simp add: code_def)

lemma isSpace_space: "isSpace (CHR '' '')"
  by (simp add: isSpace_def code_space)

lemma code_toLower: "code (toLowerChar c) = (if isUpper c then code c + 32 else code c)"
  by (simp add: toLowerChar_def isUpper_def code_def)

lemma dropWhile_head: "dropWhile P cs = [] \<or> \<not> P (hd (dropWhile P cs))"
  by (metis hd_dropWhile)

lemma trimEnd_prefix: "xs = rev (dropWhile P (rev xs)) @ rev (takeWhile P (rev xs))"
  by (metis rev_append rev_rev_ident takeWhile_dropWhile_id)

lemma trim_ends:
  "trim s = [] \<or> (\<not> isSpace (hd (trim s)) \<and> \<not> isSpace (last (trim s)))"
proof -
  let ?d = "dropWhile isSpace s"
  let ?w = "dropWhile isSpace (rev ?d)"
  show ?thesis
  proof (cases "?w = []")
    case True
    then show ?thesis by (simp add: trim_def)
  next
    case False
    have a: "\<not> isSpace (hd ?w)" using False by (metis hd_dropWhile)
    have w: "?w = drop (length (takeWhile isSpace (rev ?d))) (rev ?d)"
      by (simp add: dropWhile_eq_drop)
    have "last ?w = last (rev ?d)" using False by (metis last_drop w drop_eq_Nil not_le)
    moreover have dne: "?d \<noteq> []"
    proof
      assume "?d = []"
      then have "?w = []" by (metis dropWhile.simps(1) rev.simps(1))
      with False show False by blast
    qed
    ultimately have "last ?w = hd ?d" by (simp add: last_rev)
    then have b: "\<not> isSpace (last ?w)" using dne by (metis hd_dropWhile)
    show ?thesis using a b False by (simp add: trim_def hd_rev last_rev)
  qed
qed

lemma isSpaceUnit_space: "isSpaceUnit 32"
  by (simp add: isSpaceUnit_def)

lemma collapseUnits_head:
  "us = [] \<or> \<not> isSpaceUnit (hd us)
     \<Longrightarrow> collapseSpacesUnits us = [] \<or> \<not> isSpaceUnit (hd (collapseSpacesUnits us))"
  by (cases us) auto

lemma collapsedUnits_collapse: "collapsedUnits (collapseSpacesUnits s)"
proof (induction s rule: collapseSpacesUnits.induct)
  case 1
  then show ?case by simp
next
  case (2 u us)
  show ?case
  proof (cases "isSpaceUnit u")
    case True
    let ?r = "collapseSpacesUnits (dropWhile isSpaceUnit us)"
    have h: "?r = [] \<or> \<not> isSpaceUnit (hd ?r)"
      using collapseUnits_head[OF dropWhile_head] .
    have c: "collapsedUnits ?r" using 2 True by simp
    show ?thesis using True h c by (cases ?r) auto
  next
    case False
    then have c: "collapsedUnits (collapseSpacesUnits us)" using 2 by simp
    show ?thesis using False c by (cases "collapseSpacesUnits us") auto
  qed
qed

lemma collapsedUnits_fix: "collapsedUnits s \<Longrightarrow> collapseSpacesUnits s = s"
  by (induction s rule: collapsedUnits.induct) auto

lemma collapsedUnits_tl: "collapsedUnits (u # us) \<Longrightarrow> collapsedUnits us"
  by (cases us) auto

lemma collapsedUnits_dropWhile: "collapsedUnits s \<Longrightarrow> collapsedUnits (dropWhile P s)"
  by (induction s) (auto dest: collapsedUnits_tl)

lemma collapsedUnits_prefix: "collapsedUnits (xs @ ys) \<Longrightarrow> collapsedUnits xs"
proof (induction xs rule: collapsedUnits.induct)
  case 1
  then show ?case by simp
next
  case (2 u)
  then show ?case by (cases ys) auto
next
  case (3 u v us)
  then show ?case by auto
qed

lemma collapsedUnits_trim: "collapsedUnits s \<Longrightarrow> collapsedUnits (trimUnits s)"
  unfolding trimUnits_def
  using collapsedUnits_prefix[of "rev (dropWhile isSpaceUnit (rev (dropWhile isSpaceUnit s)))"
      "rev (takeWhile isSpaceUnit (rev (dropWhile isSpaceUnit s)))"]
    trimEnd_prefix[of "dropWhile isSpaceUnit s" isSpaceUnit]
    collapsedUnits_dropWhile[of s isSpaceUnit]
  by simp

lemma trimUnits_fix:
  assumes "s = [] \<or> (\<not> isSpaceUnit (hd s) \<and> \<not> isSpaceUnit (last s))"
  shows "trimUnits s = s"
proof (cases s)
  case Nil
  then show ?thesis by (simp add: trimUnits_def)
next
  case (Cons a list)
  with assms have h: "\<not> isSpaceUnit (hd s)" "\<not> isSpaceUnit (last s)" "s \<noteq> []" by auto
  have 1: "dropWhile isSpaceUnit s = s" using h by (cases s) auto
  have 2: "dropWhile isSpaceUnit (rev s) = rev s"
    using h by (cases "rev s") (auto simp: last_rev hd_rev)
  show ?thesis by (simp add: trimUnits_def 1 2)
qed

lemma trimUnits_ends:
  "trimUnits s = [] \<or> (\<not> isSpaceUnit (hd (trimUnits s)) \<and> \<not> isSpaceUnit (last (trimUnits s)))"
proof -
  let ?d = "dropWhile isSpaceUnit s"
  let ?w = "dropWhile isSpaceUnit (rev ?d)"
  show ?thesis
  proof (cases "?w = []")
    case True
    then show ?thesis by (simp add: trimUnits_def)
  next
    case False
    have a: "\<not> isSpaceUnit (hd ?w)" using False by (metis hd_dropWhile)
    have w: "?w = drop (length (takeWhile isSpaceUnit (rev ?d))) (rev ?d)"
      by (simp add: dropWhile_eq_drop)
    have "last ?w = last (rev ?d)" using False by (metis last_drop w drop_eq_Nil not_le)
    moreover have dne: "?d \<noteq> []"
    proof
      assume "?d = []"
      then have "?w = []" by (metis dropWhile.simps(1) rev.simps(1))
      with False show False by blast
    qed
    ultimately have "last ?w = hd ?d" by (simp add: last_rev)
    then have b: "\<not> isSpaceUnit (last ?w)" using dne by (metis hd_dropWhile)
    show ?thesis using a b False by (simp add: trimUnits_def hd_rev last_rev)
  qed
qed

lemma set_trimUnits: "set (trimUnits s) \<subseteq> set s"
  unfolding trimUnits_def by (metis set_dropWhileD set_rev subsetI)

lemma set_collapseUnits:
  "u \<in> set (collapseSpacesUnits s) \<Longrightarrow> u = 32 \<or> (u \<in> set s \<and> \<not> isSpaceUnit u)"
  by (induction s rule: collapseSpacesUnits.induct) (auto split: if_splits dest: set_dropWhileD)

lemma set_replaceUnits:
  "u \<in> set (replaceNonWordUnits s) \<Longrightarrow> u = 32 \<or> (u \<in> set s \<and> (isWordUnit u \<or> isSpaceUnit u))"
  by (auto simp: replaceNonWordUnits_def split: if_splits)

text \<open>The code units of a normalized string: the space, the underscore, digits and small
  letters.\<close>

lemma set_normalizeUnits:
  assumes up: "\<And>t u. u \<in> set (lower t) \<Longrightarrow> \<not> (65 \<le> u \<and> u \<le> 90)"
    and u: "u \<in> set (normalizeUnits lower s)"
  shows "u = 32 \<or> u = 95 \<or> (48 \<le> u \<and> u \<le> 57) \<or> (97 \<le> u \<and> u \<le> 122)"
proof -
  have "u \<in> set (collapseSpacesUnits (replaceNonWordUnits (lower s)))"
    using u set_trimUnits by (auto simp: normalizeUnits_def)
  then have "u = 32 \<or> (u \<in> set (replaceNonWordUnits (lower s)) \<and> \<not> isSpaceUnit u)"
    by (rule set_collapseUnits)
  then have "u = 32 \<or> (u \<in> set (lower s) \<and> isWordUnit u)"
    using set_replaceUnits[of u "lower s"] by auto
  then show ?thesis using up[of u s] by (auto simp: isWordUnit_def)
qed

lemma normalizeUnits_fix:
  assumes up: "\<And>t u. u \<in> set (lower t) \<Longrightarrow> \<not> (65 \<le> u \<and> u \<le> 90)"
    and fx: "\<And>t. (\<forall>u\<in>set t. u = 32 \<or> u = 95 \<or> (48 \<le> u \<and> u \<le> 57) \<or> (97 \<le> u \<and> u \<le> 122))
                 \<Longrightarrow> lower t = t"
  shows "normalizeUnits lower (normalizeUnits lower s) = normalizeUnits lower s"
proof -
  let ?n = "normalizeUnits lower s"
  have chars: "\<forall>u\<in>set ?n. u = 32 \<or> u = 95 \<or> (48 \<le> u \<and> u \<le> 57) \<or> (97 \<le> u \<and> u \<le> 122)"
    using set_normalizeUnits[of lower _ s] up by blast
  have 0: "lower ?n = ?n" using chars by (rule fx)
  have "\<forall>u\<in>set ?n. isWordUnit u \<or> isSpaceUnit u"
    using chars by (auto simp: isWordUnit_def isSpaceUnit_def)
  then have 1: "replaceNonWordUnits ?n = ?n"
    by (simp add: replaceNonWordUnits_def map_idI)
  have "collapsedUnits ?n"
    unfolding normalizeUnits_def by (rule collapsedUnits_trim[OF collapsedUnits_collapse])
  then have 2: "collapseSpacesUnits ?n = ?n" by (rule collapsedUnits_fix)
  have 3: "trimUnits ?n = ?n" unfolding normalizeUnits_def by (rule trimUnits_fix[OF trimUnits_ends])
  have "normalizeUnits lower ?n = trimUnits (collapseSpacesUnits (replaceNonWordUnits (lower ?n)))"
    by (simp add: normalizeUnits_def)
  then show ?thesis unfolding 0 1 2 3 .
qed

text \<open>
  \<^bold>\<open>C8\<close>. For every string \<open>s\<close>, a list of arbitrary code units,
  \<open>normalize (normalize s) = normalize s\<close>: normalization (lowercase, replace the code units
  that are neither word characters nor white space by spaces, collapse runs of white space,
  trim) is idempotent. Of \<open>toLowerCase\<close> the proof uses two facts: its result holds none of
  the letters A-Z, and it leaves a string of spaces, underscores, digits and small letters
  a-z as it is.
\<close>

theorem normalize_idempotent:
  assumes "\<And>t u. u \<in> set (lower t) \<Longrightarrow> \<not> (65 \<le> u \<and> u \<le> 90)"
    and "\<And>t. (\<forall>u\<in>set t. u = 32 \<or> u = 95 \<or> (48 \<le> u \<and> u \<le> 57) \<or> (97 \<le> u \<and> u \<le> 122))
              \<Longrightarrow> lower t = t"
  shows "normalizeUnits lower (normalizeUnits lower s) = normalizeUnits lower s"
  using assms by (rule normalizeUnits_fix)

lemma lowerSample_no_capital: "u \<in> set (lowerSample t) \<Longrightarrow> \<not> (65 \<le> u \<and> u \<le> 90)"
  by (auto simp: lowerSample_def lowerUnit_def split: if_splits)

lemma lowerSample_fix:
  "\<forall>u\<in>set t. u = 32 \<or> u = 95 \<or> (48 \<le> u \<and> u \<le> 57) \<or> (97 \<le> u \<and> u \<le> 122)
     \<Longrightarrow> lowerSample t = t"
proof (induction t)
  case Nil
  then show ?case by (simp add: lowerSample_def)
next
  case (Cons a t)
  then have "lowerUnit a = [a]" by (auto simp: lowerUnit_def)
  then show ?case using Cons by (simp add: lowerSample_def)
qed

text \<open>The string \<open>" \<close>U+0130\<open>ST,\<close>U+2028 U+212A\<open>!\<close>U+3000\<open>"\<close> is normalized to
  \<open>"i st k"\<close>.\<close>

theorem normalize_idempotent_witness:
  "normalizeUnits lowerSample [32, 304, 83, 84, 44, 8232, 8490, 33, 12288]
     = unitsOf ''i st k''
   \<and> normalizeUnits lowerSample (normalizeUnits lowerSample [32, 304, 83, 84, 44, 8232, 8490, 33, 12288])
     = normalizeUnits lowerSample [32, 304, 83, 84, 44, 8232, 8490, 33, 12288]"
proof -
  have a: "normalizeUnits lowerSample [32, 304, 83, 84, 44, 8232, 8490, 33, 12288]
             = unitsOf ''i st k''"
    by (simp add: normalizeUnits_def lowerSample_def lowerUnit_def replaceNonWordUnits_def
        isWordUnit_def isSpaceUnit_def trimUnits_def unitsOf_def code_def)
  have b: "normalizeUnits lowerSample
             (normalizeUnits lowerSample [32, 304, 83, 84, 44, 8232, 8490, 33, 12288])
           = normalizeUnits lowerSample [32, 304, 83, 84, 44, 8232, 8490, 33, 12288]"
    by (rule normalize_idempotent[of lowerSample, OF lowerSample_no_capital lowerSample_fix])
  show ?thesis using a b by (rule conjI)
qed

text \<open>\<open>normalize\<close> of the aligners is \<open>normalizeUnits\<close> on the strings of code units below
  U+0100, where \<open>lowerSample\<close> is \<open>toLowerCase\<close>.\<close>

lemma code_less: "code c < 256"
  by (simp add: code_def)

lemma isSpaceUnit_code: "isSpaceUnit (code c) = isSpace c"
  using code_less[of c] by (auto simp: isSpaceUnit_def isSpace_def)

lemma isWordUnit_code: "isWordUnit (code c) = isWord c"
  by (simp add: isWordUnit_def isWord_def)

lemma lowerUnit_code: "lowerUnit (code c) = [code (toLowerChar c)]"
  using code_less[of c] by (auto simp: lowerUnit_def code_toLower isUpper_def)

lemma units_toLowerCase: "unitsOf (toLowerCase s) = lowerSample (unitsOf s)"
  by (induction s) (simp_all add: unitsOf_def toLowerCase_def lowerSample_def lowerUnit_code)

lemma units_replaceNonWord: "unitsOf (replaceNonWord s) = replaceNonWordUnits (unitsOf s)"
  by (simp add: unitsOf_def replaceNonWord_def replaceNonWordUnits_def isSpaceUnit_code
      isWordUnit_code code_space)

lemma units_dropWhile: "unitsOf (dropWhile isSpace s) = dropWhile isSpaceUnit (unitsOf s)"
  by (induction s) (simp_all add: unitsOf_def isSpaceUnit_code)

lemma units_collapseSpaces: "unitsOf (collapseSpaces s) = collapseSpacesUnits (unitsOf s)"
proof (induction s rule: collapseSpaces.induct)
  case 1
  then show ?case by (simp add: unitsOf_def)
next
  case (2 c cs)
  show ?case
  proof (cases "isSpace c")
    case True
    have "unitsOf (collapseSpaces (c # cs)) = 32 # unitsOf (collapseSpaces (dropWhile isSpace cs))"
      using True by (simp add: unitsOf_def code_space)
    also have "\<dots> = 32 # collapseSpacesUnits (dropWhile isSpaceUnit (unitsOf cs))"
      using 2(1)[OF True] by (simp add: units_dropWhile)
    also have "\<dots> = collapseSpacesUnits (unitsOf (c # cs))"
      using True by (simp add: unitsOf_def isSpaceUnit_code)
    finally show ?thesis .
  next
    case False
    have "unitsOf (collapseSpaces (c # cs)) = code c # unitsOf (collapseSpaces cs)"
      using False by (simp add: unitsOf_def)
    also have "\<dots> = code c # collapseSpacesUnits (unitsOf cs)"
      using 2(2)[OF False] by simp
    also have "\<dots> = collapseSpacesUnits (unitsOf (c # cs))"
      using False by (simp add: unitsOf_def isSpaceUnit_code)
    finally show ?thesis .
  qed
qed

lemma units_rev: "unitsOf (rev s) = rev (unitsOf s)"
  by (simp add: unitsOf_def rev_map)

lemma units_trim: "unitsOf (trim s) = trimUnits (unitsOf s)"
  by (simp add: trim_def trimUnits_def units_rev units_dropWhile)

lemma normalize_units: "unitsOf (normalize s) = normalizeUnits lowerSample (unitsOf s)"
  by (simp add: normalize_def normalizeUnits_def units_trim units_collapseSpaces
      units_replaceNonWord units_toLowerCase)

lemma units_inject: "unitsOf s = unitsOf t \<Longrightarrow> s = t"
  unfolding unitsOf_def code_def by (metis char_of_char map_idI map_map o_def)

lemma normalize_fix: "normalize (normalize s) = normalize s"
proof -
  have "unitsOf (normalize (normalize s)) = unitsOf (normalize s)"
    unfolding normalize_units
    by (rule normalizeUnits_fix[of lowerSample, OF lowerSample_no_capital lowerSample_fix])
  then show ?thesis by (rule units_inject)
qed


section \<open>Similarity\<close>

lemma split_all_empty: "(\<forall>w\<in>set (split sep s). w = []) \<longleftrightarrow> (\<forall>c\<in>set s. c = sep)"
  by (induction s) (auto split: list.splits)

lemma wordsOf_nonempty: "wordsOf a \<noteq> [] \<longleftrightarrow> (\<exists>c\<in>set a. c \<noteq> CHR '' '')"
  using split_all_empty[of "CHR '' ''" a]
  by (auto simp: wordsOf_def filter_empty_conv)

lemma countIn_self: "countIn xs xs = length xs"
  by (simp add: countIn_def)

lemma similarity_ge0: "0 \<le> similarity a b"
  by (simp add: similarity_def Let_def min_def max_def)

lemma similarity_le1: "similarity a b \<le> 1"
  by (simp add: similarity_def Let_def)

lemma similarity_self:
  assumes "\<exists>c\<in>set a. c \<noteq> CHR '' ''"
  shows "similarity a a = 1"
proof -
  have w: "wordsOf a \<noteq> []" using assms wordsOf_nonempty by blast
  have a: "a \<noteq> []" using assms by auto
  have "remdups (wordsOf a) \<noteq> []" using w by simp
  then have l: "length (remdups (wordsOf a)) > 0" by blast
  have j: "(of_nat (countIn (remdups (wordsOf a)) (remdups (wordsOf a))) :: rat)
            / of_nat (max (length (remdups (wordsOf a))) (length (remdups (wordsOf a)))) = 1"
    using l by (simp add: countIn_self)
  show ?thesis
    unfolding similarity_def Let_def j using a w by (simp add: min_def max_def)
qed

lemma similarity_no_word:
  assumes "\<forall>c\<in>set a. c = CHR '' ''"
  shows "similarity a a = 0"
proof -
  have "wordsOf a = []" using assms wordsOf_nonempty by blast
  then show ?thesis by (simp add: similarity_def)
qed

text \<open>\<open>similarity\<close> is private to the module. Its three calls pass as first argument the
  normalized text of a beat that went through the guard \<open>if (!beatText)\<close>: a non-empty result
  of \<open>normalize\<close>, which is trimmed and so starts with a word.\<close>

lemma normalize_head: "normalize s \<noteq> [] \<Longrightarrow> hd (normalize s) \<noteq> CHR '' ''"
  using trim_ends[of "collapseSpaces (replaceNonWord (toLowerCase s))"] isSpace_space
  by (auto simp: normalize_def)

lemma similarity_normalized:
  assumes "normalize s \<noteq> []"
  shows "similarity (normalize s) (normalize s) = 1"
proof -
  have "hd (normalize s) \<in> set (normalize s)" using assms by simp
  moreover have "hd (normalize s) \<noteq> CHR '' ''" using assms by (rule normalize_head)
  ultimately have "\<exists>c\<in>set (normalize s). c \<noteq> CHR '' ''" by blast
  then show ?thesis by (rule similarity_self)
qed

text \<open>
  \<^bold>\<open>C5\<close>. For all strings \<open>a\<close> and \<open>b\<close>, \<open>0 \<le> similarity a b \<le> 1\<close>; and \<open>similarity a a = 1\<close>
  for every non-empty \<open>a\<close> that \<open>similarity\<close> receives, that is for every non-empty result of
  \<open>normalize\<close>. On arbitrary strings \<open>similarity a a = 1\<close> holds exactly when \<open>a\<close> has a word,
  that is a character other than the space.
\<close>

theorem similarity_bounds:
  "0 \<le> similarity a b \<and> similarity a b \<le> 1
   \<and> (normalize s \<noteq> [] \<longrightarrow> similarity (normalize s) (normalize s) = 1)
   \<and> (similarity a a = 1 \<longleftrightarrow> (\<exists>c\<in>set a. c \<noteq> CHR '' ''))"
proof -
  have "similarity a a = 1 \<longleftrightarrow> (\<exists>c\<in>set a. c \<noteq> CHR '' '')"
  proof
    assume one: "similarity a a = 1"
    show "\<exists>c\<in>set a. c \<noteq> CHR '' ''"
    proof (rule ccontr)
      assume "\<not> (\<exists>c\<in>set a. c \<noteq> CHR '' '')"
      then have "similarity a a = 0" using similarity_no_word by blast
      with one show False by simp
    qed
  next
    assume "\<exists>c\<in>set a. c \<noteq> CHR '' ''"
    then show "similarity a a = 1" by (rule similarity_self)
  qed
  then show ?thesis by (simp add: similarity_ge0 similarity_le1 similarity_normalized)
qed

theorem similarity_bounds_witness:
  "0 \<le> similarity ''new york'' ''york city'' \<and> similarity ''new york'' ''york city'' \<le> 1
   \<and> normalize '' New York! '' = ''new york''
   \<and> similarity ''new york'' ''new york'' = 1"
proof -
  have n: "normalize '' New York! '' = ''new york''" by code_simp
  have "normalize '' New York! '' \<noteq> []
          \<longrightarrow> similarity (normalize '' New York! '') (normalize '' New York! '') = 1"
    by (rule similarity_bounds[of "''new york''" "''york city''" "'' New York! ''",
          THEN conjunct2, THEN conjunct2, THEN conjunct1])
  then have s: "similarity ''new york'' ''new york'' = 1" unfolding n by simp
  have b: "0 \<le> similarity ''new york'' ''york city''" "similarity ''new york'' ''york city'' \<le> 1"
    using similarity_bounds[of "''new york''" "''york city''" "[]"] by simp_all
  show ?thesis by (intro conjI) (rule b(1), rule b(2), rule n, rule s)
qed

text \<open>A string of spaces has no word and similarity 0 with itself (the guard
  \<open>wordsA.length === 0\<close>); \<open>normalize\<close> never returns such a string.\<close>

lemma similarity_one_space: "similarity '' '' '' '' = 0"
  by (simp add: similarity_def wordsOf_def)

text \<open>The same holds for a text with code units of any kind: what \<open>normalizeUnits\<close> returns
  for it, when not empty, has similarity 1 with itself.\<close>

lemma similarity_receivable:
  assumes "unitsOf a = normalizeUnits lower t" and "a \<noteq> []"
  shows "similarity a a = 1"
proof -
  have "unitsOf a \<noteq> []" using assms(2) by (simp add: unitsOf_def)
  then have "normalizeUnits lower t \<noteq> []" using assms(1) by simp
  then have "\<not> isSpaceUnit (hd (normalizeUnits lower t))"
    using trimUnits_ends[of "collapseSpacesUnits (replaceNonWordUnits (lower t))"]
    by (simp add: normalizeUnits_def)
  moreover have "hd (unitsOf a) = code (hd a)" using assms(2) by (simp add: unitsOf_def hd_map)
  ultimately have "\<not> isSpaceUnit (code (hd a))" using assms(1) by simp
  then have "hd a \<noteq> CHR '' ''" using isSpaceUnit_space code_space by metis
  moreover have "hd a \<in> set a" using assms(2) by simp
  ultimately have "\<exists>c\<in>set a. c \<noteq> CHR '' ''" by blast
  then show ?thesis by (rule similarity_self)
qed


section \<open>The Beat Aligner\<close>

lemma scanStep_inv:
  "scanInv lo hi b \<Longrightarrow> lo \<le> ci \<Longrightarrow> ci < hi \<Longrightarrow> scanInv lo hi (scanStep cueTexts n btext b ci)"
  by (auto simp: scanInv_def scanStep_def Let_def)

lemma scan_foldl_inv:
  "scanInv lo hi b \<Longrightarrow> \<forall>ci\<in>set xs. lo \<le> ci \<and> ci < hi
     \<Longrightarrow> scanInv lo hi (foldl (scanStep cueTexts n btext) b xs)"
proof (induction xs arbitrary: b)
  case Nil
  then show ?case by simp
next
  case (Cons x xs)
  have "scanInv lo hi (scanStep cueTexts n btext b x)"
    using Cons.prems by (intro scanStep_inv) auto
  then show ?case using Cons.IH Cons.prems by simp
qed

lemma bestCandidate_inv: "scanInv searchStart n (bestCandidate cueTexts n btext searchStart)"
  unfolding bestCandidate_def
  by (rule scan_foldl_inv) (auto simp: scanInv_def)

lemma threshold_pos: "0 < threshold bt"
  by (simp add: threshold_def)

lemma Max_insert_max:
  "finite S \<Longrightarrow> Max (insert (max a b) S) = Max (insert (a::rat) (insert b S))"
  by (cases "S = {}") (simp_all add: max.assoc)

lemma scan_foldl_max:
  "snd (foldl (scanStep cueTexts n btext) b xs)
     = Max (insert (snd b) (cueScore cueTexts n btext ` set xs))"
proof (induction xs arbitrary: b)
  case Nil
  then show ?case by simp
next
  case (Cons x xs)
  have "snd (scanStep cueTexts n btext b x) = max (snd b) (cueScore cueTexts n btext x)"
    by (simp add: scanStep_def Let_def max_def)
  then show ?case
    using Cons[of "scanStep cueTexts n btext b x"]
    by (simp only: foldl_Cons list.set image_insert Max_insert_max[OF finite_imageI[OF finite_set]])
qed

lemma wfMapping_snoc:
  "wfMapping cs mp \<Longrightarrow> wfEntry cs (length mp) e \<Longrightarrow> wfMapping cs (mp @ [e])"
  by (auto simp: wfMapping_def nth_append less_Suc_eq)

lemma increasingCues_I:
  assumes "\<And>i j a b. i < j \<Longrightarrow> j < length mp \<Longrightarrow> cueIdx (mp ! i) = Some a
             \<Longrightarrow> cueIdx (mp ! j) = Some b \<Longrightarrow> a < b"
  shows "increasingCues mp"
  unfolding increasingCues_def using assms by blast

lemma increasingCues_D:
  assumes "increasingCues mp" "i < j" "j < length mp" "cueIdx (mp ! i) = Some a"
    "cueIdx (mp ! j) = Some b"
  shows "a < b"
  using assms unfolding increasingCues_def by blast

lemma increasing_snoc_None:
  assumes "increasingCues mp" "cueIdx e = None"
  shows "increasingCues (mp @ [e])"
proof (rule increasingCues_I)
  fix i j a b
  assume h: "i < j" "j < length (mp @ [e])" "cueIdx ((mp @ [e]) ! i) = Some a"
    "cueIdx ((mp @ [e]) ! j) = Some b"
  have "j \<noteq> length mp" using h(4) assms(2) by (auto simp: nth_append)
  then have j: "j < length mp" using h(2) by simp
  then have "cueIdx (mp ! i) = Some a" "cueIdx (mp ! j) = Some b"
    using h by (simp_all add: nth_append)
  then show "a < b" using increasingCues_D[OF assms(1) h(1) j] by simp
qed

lemma increasing_snoc_Some:
  assumes "increasingCues mp" "cueIdx e = Some c"
    "\<forall>m \<in> set mp. \<forall>a. cueIdx m = Some a \<longrightarrow> a < c"
  shows "increasingCues (mp @ [e])"
proof (rule increasingCues_I)
  fix i j a b
  assume h: "i < j" "j < length (mp @ [e])" "cueIdx ((mp @ [e]) ! i) = Some a"
    "cueIdx ((mp @ [e]) ! j) = Some b"
  show "a < b"
  proof (cases "j < length mp")
    case True
    then have "cueIdx (mp ! i) = Some a" "cueIdx (mp ! j) = Some b"
      using h by (simp_all add: nth_append)
    then show ?thesis using increasingCues_D[OF assms(1) h(1) True] by simp
  next
    case False
    then have j: "j = length mp" using h(2) by simp
    then have "b = c" using h(4) assms(2) by simp
    moreover have "mp ! i \<in> set mp" using h(1) j by simp
    moreover have "cueIdx (mp ! i) = Some a" using h(1,3) j by (simp add: nth_append)
    ultimately show ?thesis using assms(3) by blast
  qed
qed

lemma unmatchedBeat_wf: "wfEntry cs i (unmatchedBeat i txt skip)"
  by (simp add: wfEntry_def unmatchedBeat_def)

lemma alignInv_unmatched:
  assumes "alignInv cs (ss, mp)"
  shows "alignInv cs (ss, mp @ [unmatchedBeat (length mp) txt skip])"
proof -
  have n: "cueIdx (unmatchedBeat (length mp) txt skip) = None"
    by (simp add: unmatchedBeat_def)
  have 1: "wfMapping cs (mp @ [unmatchedBeat (length mp) txt skip])"
    using assms by (intro wfMapping_snoc unmatchedBeat_wf) (simp add: alignInv_def)
  have 2: "increasingCues (mp @ [unmatchedBeat (length mp) txt skip])"
    using assms n by (intro increasing_snoc_None) (simp_all add: alignInv_def)
  show ?thesis using assms 1 2 n by (simp add: alignInv_def)
qed

lemma beatStep_unmatched:
  assumes "(beatTypeAt beatTypes bi = Some ''silent'' \<or> beatTypeAt beatTypes bi = Some ''data'')
           \<or> normalize (beatTexts ! bi) = []
           \<or> \<not> (snd (bestCandidate cueTexts (length cs) (normalize (beatTexts ! bi)) ss)
                   \<ge> threshold (beatTypeAt beatTypes bi)
                 \<and> fst (bestCandidate cueTexts (length cs) (normalize (beatTexts ! bi)) ss) \<ge> 0)"
  shows "beatStep cs cueTexts beatTexts beatTypes (ss, mp) bi
           = (ss, mp @ [unmatchedBeat bi (beatTexts ! bi)
                          (if beatTypeAt beatTypes bi = Some ''silent''
                              \<or> beatTypeAt beatTypes bi = Some ''data''
                           then beatTypeAt beatTypes bi else None)])"
proof (cases "beatTypeAt beatTypes bi = Some ''silent'' \<or> beatTypeAt beatTypes bi = Some ''data''")
  case True
  then show ?thesis by (simp add: beatStep_def Let_def)
next
  case nt: False
  show ?thesis
  proof (cases "normalize (beatTexts ! bi) = []")
    case True
    then show ?thesis using nt by (simp add: beatStep_def Let_def)
  next
    case False
    with nt assms
    have c: "\<not> (snd (bestCandidate cueTexts (length cs) (normalize (beatTexts ! bi)) ss)
                   \<ge> threshold (beatTypeAt beatTypes bi)
                 \<and> fst (bestCandidate cueTexts (length cs) (normalize (beatTexts ! bi)) ss) \<ge> 0)"
      by blast
    show ?thesis
      unfolding beatStep_def Let_def fst_conv snd_conv
      by (simp only: nt False c if_False)
  qed
qed

lemma beatStep_matched:
  assumes "\<not> (beatTypeAt beatTypes bi = Some ''silent'' \<or> beatTypeAt beatTypes bi = Some ''data'')"
    "normalize (beatTexts ! bi) \<noteq> []"
    "best = bestCandidate cueTexts (length cs) (normalize (beatTexts ! bi)) ss"
    "snd best \<ge> threshold (beatTypeAt beatTypes bi)" "fst best \<ge> 0"
  shows "beatStep cs cueTexts beatTexts beatTypes (ss, mp) bi
           = (nat (fst best + 1),
              mp @ [\<lparr>beatIdx = bi, cueIdx = Some (nat (fst best)),
                cueId = Some (index (cs ! nat (fst best))),
                score = mathRound (snd best * 100),
                beatText = beatTexts ! bi,
                cueText = Some (ctext (cs ! nat (fst best))),
                time = Some (cue.startTime (cs ! nat (fst best))),
                skipped = None\<rparr>])"
  using assms by (simp add: beatStep_def Let_def)

lemma beatStep_inv:
  assumes inv: "alignInv cs (ss, mp)"
  shows "alignInv cs (beatStep cs cueTexts beatTexts beatTypes (ss, mp) (length mp))"
proof -
  let ?bt = "beatTypeAt beatTypes (length mp)"
  let ?txt = "normalize (beatTexts ! length mp)"
  let ?best = "bestCandidate cueTexts (length cs) ?txt ss"
  show ?thesis
  proof (cases "(?bt = Some ''silent'' \<or> ?bt = Some ''data'') \<or> ?txt = []
                  \<or> \<not> (snd ?best \<ge> threshold ?bt \<and> fst ?best \<ge> 0)")
    case True
    show ?thesis
      unfolding beatStep_unmatched[OF True] by (rule alignInv_unmatched[OF inv])
  next
    case False
    let ?e = "\<lparr>beatIdx = length mp, cueIdx = Some (nat (fst ?best)),
                cueId = Some (index (cs ! nat (fst ?best))),
                score = mathRound (snd ?best * 100),
                beatText = beatTexts ! length mp,
                cueText = Some (ctext (cs ! nat (fst ?best))),
                time = Some (cue.startTime (cs ! nat (fst ?best))),
                skipped = None\<rparr>"
    from False have f1: "\<not> (?bt = Some ''silent'' \<or> ?bt = Some ''data'')"
      and f2: "?txt \<noteq> []" and f3: "snd ?best \<ge> threshold ?bt" and nonneg: "fst ?best \<ge> 0"
      by blast+
    have eq: "beatStep cs cueTexts beatTexts beatTypes (ss, mp) (length mp)
                 = (nat (fst ?best + 1), mp @ [?e])"
      by (rule beatStep_matched[OF f1 f2 refl f3 nonneg])
    have si: "scanInv ss (length cs) ?best" by (rule bestCandidate_inv)
    with nonneg have rng: "int ss \<le> fst ?best" "fst ?best < int (length cs)"
      by (auto simp: scanInv_def)
    have ce: "cueIdx ?e = Some (nat (fst ?best))" by simp
    have "nat (fst ?best) < length cs" using rng nonneg by linarith
    then have wf: "wfEntry cs (length mp) ?e" by (simp add: wfEntry_def)
    have below: "\<forall>m \<in> set mp. \<forall>a. cueIdx m = Some a \<longrightarrow> a < nat (fst ?best)"
    proof (intro ballI allI impI)
      fix m a assume "m \<in> set mp" "cueIdx m = Some a"
      then have "a < ss" using inv by (simp add: alignInv_def)
      then show "a < nat (fst ?best)" using rng by linarith
    qed
    have inc0: "increasingCues mp" using inv by (simp add: alignInv_def)
    have inc: "increasingCues (mp @ [?e])"
      by (rule increasing_snoc_Some[OF inc0 ce below])
    have wfm0: "wfMapping cs mp" using inv by (simp add: alignInv_def)
    have wfm: "wfMapping cs (mp @ [?e])"
      by (rule wfMapping_snoc[OF wfm0 wf])
    have lim: "\<forall>m \<in> set (mp @ [?e]). \<forall>c. cueIdx m = Some c \<longrightarrow> c < nat (fst ?best + 1)"
    proof (intro ballI allI impI)
      fix m c assume m: "m \<in> set (mp @ [?e])" and c: "cueIdx m = Some c"
      have "c \<le> nat (fst ?best)"
      proof (cases "m \<in> set mp")
        case True
        then have "c < nat (fst ?best)" using below c by blast
        then show ?thesis by simp
      next
        case False
        then have "m = ?e" using m by simp
        then have "cueIdx m = Some (nat (fst ?best))" using ce by (simp only:)
        then show ?thesis using c by simp
      qed
      then show "c < nat (fst ?best + 1)" using nonneg by linarith
    qed
    have "alignInv cs (nat (fst ?best + 1), mp @ [?e])"
      unfolding alignInv_def fst_conv snd_conv
      by (intro conjI) (rule wfm, rule inc, rule lim)
    then show ?thesis by (simp only: eq)
  qed
qed

lemma beatStep_length:
  "length (snd (beatStep cs cueTexts beatTexts beatTypes st bi)) = Suc (length (snd st))"
  by (simp add: beatStep_def Let_def)

lemma alignLoop_Suc:
  "alignLoop cs beatTexts beatTypes (Suc k)
     = beatStep cs (map (\<lambda>c. normalize (ctext c)) cs) beatTexts beatTypes
         (alignLoop cs beatTexts beatTypes k) k"
  by (simp add: alignLoop_def)

lemma alignLoop_length: "length (snd (alignLoop cs beatTexts beatTypes k)) = k"
proof (induction k)
  case 0
  then show ?case by (simp add: alignLoop_def)
next
  case (Suc k)
  then show ?case by (simp add: alignLoop_Suc beatStep_length)
qed

lemma alignLoop_inv: "alignInv cs (alignLoop cs beatTexts beatTypes k)"
proof (induction k)
  case 0
  then show ?case
    by (simp add: alignLoop_def alignInv_def wfMapping_def increasingCues_def)
next
  case (Suc k)
  obtain ss mp where st: "alignLoop cs beatTexts beatTypes k = (ss, mp)" by fastforce
  then have "length mp = k" using alignLoop_length[of cs beatTexts beatTypes k] by simp
  then show ?case
    using beatStep_inv[of cs ss mp] Suc st by (simp add: alignLoop_Suc)
qed

lemma beatStep_snoc:
  "\<exists>e. snd (beatStep cs cueTexts beatTexts beatTypes st bi) = snd st @ [e]"
  by (simp add: beatStep_def Let_def)

lemma alignLoop_take:
  "k \<le> n \<Longrightarrow> take k (snd (alignLoop cs beatTexts beatTypes n)) = snd (alignLoop cs beatTexts beatTypes k)"
proof (induction n)
  case 0
  then show ?case by (simp add: alignLoop_def)
next
  case (Suc n)
  show ?case
  proof (cases "k = Suc n")
    case True
    then show ?thesis using alignLoop_length[of cs beatTexts beatTypes "Suc n"] by simp
  next
    case False
    then have kn: "k \<le> n" using Suc.prems by simp
    obtain e where e: "snd (alignLoop cs beatTexts beatTypes (Suc n))
                       = snd (alignLoop cs beatTexts beatTypes n) @ [e]"
      unfolding alignLoop_Suc using beatStep_snoc by blast
    have "length (snd (alignLoop cs beatTexts beatTypes n)) = n" by (rule alignLoop_length)
    then show ?thesis using Suc.IH[OF kn] kn e by simp
  qed
qed

lemma alignLoop_nth:
  assumes "i < n"
  shows "snd (alignLoop cs beatTexts beatTypes n) ! i
         = last (snd (alignLoop cs beatTexts beatTypes (Suc i)))"
proof -
  have "take (Suc i) (snd (alignLoop cs beatTexts beatTypes n))
          = snd (alignLoop cs beatTexts beatTypes (Suc i))"
    using assms by (intro alignLoop_take) simp
  moreover have "i < length (snd (alignLoop cs beatTexts beatTypes n))"
    using assms by (simp add: alignLoop_length)
  ultimately show ?thesis
    by (metis last_snoc take_Suc_conv_app_nth)
qed

lemma mapping_Some:
  assumes "beatResult.mapping (mapSrtToBeatsIntelligent cs beatTexts beatTypes segStart segEnd) = Some mp"
  shows "beatTexts \<noteq> [] \<and> mp = snd (alignLoop cs beatTexts beatTypes (length beatTexts))"
  using assms by (auto simp: mapSrtToBeatsIntelligent_def Let_def split: if_splits)

text \<open>
  \<^bold>\<open>C1\<close>. For every cue list and every list of beat texts (with optional beat types), the
  matched cue indices of the mapping that \<open>mapSrtToBeatsIntelligent\<close> produces are strictly
  increasing in beat order: of two beats with a matched cue, the later beat has the larger
  cue index. (For the empty beat list the mapping is \<open>null\<close> and there is nothing to order.)
\<close>

theorem beat_monotonicity:
  assumes "beatResult.mapping (mapSrtToBeatsIntelligent cs beatTexts beatTypes segStart segEnd) = Some mp"
    and "i < j" and "j < length mp"
    and "cueIdx (mp ! i) = Some a" and "cueIdx (mp ! j) = Some b"
  shows "a < b"
proof -
  have "mp = snd (alignLoop cs beatTexts beatTypes (length beatTexts))"
    using mapping_Some[OF assms(1)] by simp
  then have "increasingCues mp"
    using alignLoop_inv[of cs beatTexts beatTypes "length beatTexts"] by (simp add: alignInv_def)
  then show ?thesis using assms(2-5) by (rule increasingCues_D)
qed

lemma wmapping:
  "map cueIdx (snd (alignLoop wcues wbeats None 3)) = [Some 0, Some 1, Some 2]"
  by code_simp

theorem beat_monotonicity_witness:
  "beatResult.mapping (mapSrtToBeatsIntelligent wcues wbeats None None None)
     = Some (snd (alignLoop wcues wbeats None 3))
   \<and> map cueIdx (snd (alignLoop wcues wbeats None 3)) = [Some 0, Some 1, Some 2]
   \<and> (0::nat) < 2"
proof -
  let ?mp = "snd (alignLoop wcues wbeats None 3)"
  have lw: "length wbeats = 3" by (simp add: wbeats_def)
  have m: "beatResult.mapping (mapSrtToBeatsIntelligent wcues wbeats None None None) = Some ?mp"
    by (simp add: mapSrtToBeatsIntelligent_def Let_def lw)
  have l: "2 < length ?mp" by (simp add: alignLoop_length)
  have c0: "cueIdx (?mp ! 0) = Some 0" and c2: "cueIdx (?mp ! 2) = Some 2"
    using wmapping l by (simp_all add: list_eq_iff_nth_eq)
  have "(0::nat) < 2"
    by (rule beat_monotonicity[OF m _ l c0 c2]) simp
  then show ?thesis using m wmapping by simp
qed

lemma scanStep_attains:
  assumes "fst b \<ge> 0 \<longrightarrow> cueScore cueTexts n btext (nat (fst b)) = snd b"
  shows "fst (scanStep cueTexts n btext b ci) \<ge> 0
           \<longrightarrow> cueScore cueTexts n btext (nat (fst (scanStep cueTexts n btext b ci)))
                = snd (scanStep cueTexts n btext b ci)"
  using assms by (simp add: scanStep_def Let_def)

lemma scan_foldl_attains:
  assumes "fst b \<ge> 0 \<longrightarrow> cueScore cueTexts n btext (nat (fst b)) = snd b"
  shows "fst (foldl (scanStep cueTexts n btext) b xs) \<ge> 0
           \<longrightarrow> cueScore cueTexts n btext (nat (fst (foldl (scanStep cueTexts n btext) b xs)))
                = snd (foldl (scanStep cueTexts n btext) b xs)"
  using assms
proof (induction xs arbitrary: b)
  case Nil
  then show ?case by simp
next
  case (Cons x xs)
  show ?case
    unfolding foldl_Cons
    by (rule Cons.IH[OF scanStep_attains[OF Cons.prems]])
qed

lemma bestCandidate_attains:
  "fst (bestCandidate cueTexts n btext ss) \<ge> 0
     \<Longrightarrow> cueScore cueTexts n btext (nat (fst (bestCandidate cueTexts n btext ss)))
           = snd (bestCandidate cueTexts n btext ss)"
  using scan_foldl_attains[of "(-1, 0)" cueTexts n btext "[ss..<n]"]
  by (simp add: bestCandidate_def)

lemma bestCandidate_max:
  "snd (bestCandidate cueTexts n btext ss)
     = Max (insert 0 (cueScore cueTexts n btext ` {ss..<n}))"
  by (simp add: bestCandidate_def scan_foldl_max)

lemma bestCandidate_found:
  assumes "snd (bestCandidate cueTexts n btext ss) \<ge> threshold bt"
  shows "fst (bestCandidate cueTexts n btext ss) \<ge> 0"
  using bestCandidate_inv[of ss n cueTexts btext] threshold_pos[of bt] assms
  by (auto simp: scanInv_def)

lemma alignLoop_entry:
  assumes "i < n"
  shows "snd (alignLoop cs beatTexts beatTypes n) ! i
         = last (snd (beatStep cs (map (\<lambda>c. normalize (ctext c)) cs) beatTexts beatTypes
                   (fst (alignLoop cs beatTexts beatTypes i), snd (alignLoop cs beatTexts beatTypes i)) i))"
  using alignLoop_nth[OF assms] by (simp add: alignLoop_Suc)

text \<open>The accepted score of a typed beat on the cues \<open>tcues\<close>: both beats share one word
  out of ten with the cue they are compared with, which scores 0.1.\<close>

lemma tscore0:
  "bestCandidate (map (\<lambda>c. normalize (ctext c)) tcues) (length tcues)
       (normalize (tbeats ! 0)) (fst (alignLoop tcues tbeats (Some ttypes) 0)) = (0, 1 / 10)"
  by code_simp

lemma tscore1:
  "bestCandidate (map (\<lambda>c. normalize (ctext c)) tcues) (length tcues)
       (normalize (tbeats ! 1)) (fst (alignLoop tcues tbeats (Some ttypes) 1)) = (1, 1 / 10)"
  by code_simp

text \<open>
  \<^bold>\<open>C6\<close>. Take a beat \<open>i\<close> and let \<open>ty\<close> be its type: \<open>beatTypes[i]\<close> when \<open>opts.beatTypes\<close> is
  given and has an entry for the beat, and no type otherwise. If \<open>ty\<close> is neither \<open>silent\<close>
  nor \<open>data\<close> and the normalized text of the beat is not empty, let \<open>best\<close> be what the scan
  from the current \<open>searchStart\<close> returns; its score is the largest candidate score (or 0).
  A beat of type \<open>label\<close> is recorded with a cue index exactly when that score is at least
  0.08, every other beat exactly when it is at least 0.15; the recorded index is then the
  best candidate, which has that score; below the threshold the beat is recorded with
  \<open>cueIdx = null\<close>.
\<close>

theorem adaptive_threshold:
  assumes m: "beatResult.mapping (mapSrtToBeatsIntelligent cs beatTexts beatTypes segStart segEnd) = Some mp"
    and i: "i < length beatTexts"
    and ty: "ty = (case beatTypes of None \<Rightarrow> None
                   | Some ts \<Rightarrow> if i < length ts then Some (ts ! i) else None)"
    and nt: "ty \<noteq> Some ''silent''" "ty \<noteq> Some ''data''"
    and ne: "normalize (beatTexts ! i) \<noteq> []"
    and best: "best = bestCandidate (map (\<lambda>c. normalize (ctext c)) cs) (length cs)
                        (normalize (beatTexts ! i)) (fst (alignLoop cs beatTexts beatTypes i))"
  shows "(ty = Some ''label'' \<longrightarrow> (cueIdx (mp ! i) \<noteq> None \<longleftrightarrow> snd best \<ge> 8 / 100))
       \<and> (ty \<noteq> Some ''label'' \<longrightarrow> (cueIdx (mp ! i) \<noteq> None \<longleftrightarrow> snd best \<ge> 15 / 100))
       \<and> (cueIdx (mp ! i) \<noteq> None \<longrightarrow>
            cueIdx (mp ! i) = Some (nat (fst best))
            \<and> cueScore (map (\<lambda>c. normalize (ctext c)) cs) (length cs) (normalize (beatTexts ! i))
                 (nat (fst best)) = snd best)
       \<and> snd best = Max (insert 0 (cueScore (map (\<lambda>c. normalize (ctext c)) cs) (length cs)
                           (normalize (beatTexts ! i))
                           ` {fst (alignLoop cs beatTexts beatTypes i) ..< length cs}))"
proof -
  let ?ct = "map (\<lambda>c. normalize (ctext c)) cs"
  let ?st = "alignLoop cs beatTexts beatTypes i"
  let ?thr = "if ty = Some ''label'' then 8 / 100 else (15 / 100 :: rat)"
  have bt: "beatTypeAt beatTypes i = ty" by (simp add: ty beatTypeAt_def)
  have t: "?thr = threshold (beatTypeAt beatTypes i)" by (simp add: bt threshold_def)
  have mp: "mp = snd (alignLoop cs beatTexts beatTypes (length beatTexts))"
    using mapping_Some[OF m] by simp
  have e: "mp ! i = last (snd (beatStep cs ?ct beatTexts beatTypes (fst ?st, snd ?st) i))"
    unfolding mp by (rule alignLoop_entry[OF i])
  have mx: "snd best = Max (insert 0 (cueScore ?ct (length cs) (normalize (beatTexts ! i))
                           ` {fst ?st ..< length cs}))"
    unfolding best by (rule bestCandidate_max)
  have nt': "\<not> (beatTypeAt beatTypes i = Some ''silent'' \<or> beatTypeAt beatTypes i = Some ''data'')"
    using nt by (simp add: bt)
  have main: "(cueIdx (mp ! i) \<noteq> None \<longleftrightarrow> snd best \<ge> ?thr)
      \<and> (cueIdx (mp ! i) \<noteq> None \<longrightarrow>
            cueIdx (mp ! i) = Some (nat (fst best))
            \<and> cueScore ?ct (length cs) (normalize (beatTexts ! i)) (nat (fst best)) = snd best)"
  proof (cases "snd best \<ge> ?thr")
    case True
    then have ge: "snd best \<ge> threshold (beatTypeAt beatTypes i)" using t by simp
    then have f: "fst best \<ge> 0" unfolding best by (rule bestCandidate_found)
    have A: "cueIdx (mp ! i) = Some (nat (fst best))"
      unfolding e beatStep_matched[OF nt' ne best ge f] by simp
    have B: "cueScore ?ct (length cs) (normalize (beatTexts ! i)) (nat (fst best)) = snd best"
      using f unfolding best by (rule bestCandidate_attains)
    show ?thesis using A B True by simp
  next
    case False
    then have "\<not> (snd best \<ge> threshold (beatTypeAt beatTypes i) \<and> fst best \<ge> 0)"
      using t by simp
    then have u: "(beatTypeAt beatTypes i = Some ''silent'' \<or> beatTypeAt beatTypes i = Some ''data'')
           \<or> normalize (beatTexts ! i) = []
           \<or> \<not> (snd (bestCandidate ?ct (length cs) (normalize (beatTexts ! i)) (fst ?st))
                   \<ge> threshold (beatTypeAt beatTypes i)
                 \<and> fst (bestCandidate ?ct (length cs) (normalize (beatTexts ! i)) (fst ?st)) \<ge> 0)"
      unfolding best by blast
    have A: "cueIdx (mp ! i) = None"
      unfolding e beatStep_unmatched[OF u] by (simp add: unmatchedBeat_def)
    show ?thesis using A False by simp
  qed
  have 1: "ty = Some ''label'' \<longrightarrow> (cueIdx (mp ! i) \<noteq> None \<longleftrightarrow> snd best \<ge> 8 / 100)"
    using main by simp
  have 2: "ty \<noteq> Some ''label'' \<longrightarrow> (cueIdx (mp ! i) \<noteq> None \<longleftrightarrow> snd best \<ge> 15 / 100)"
    using main by simp
  have 3: "cueIdx (mp ! i) \<noteq> None \<longrightarrow>
            cueIdx (mp ! i) = Some (nat (fst best))
            \<and> cueScore ?ct (length cs) (normalize (beatTexts ! i)) (nat (fst best)) = snd best"
    using main by simp
  show ?thesis by (intro conjI) (rule 1, rule 2, rule 3, rule mx)
qed

text \<open>On \<open>tcues\<close> both beats score 0.1: the beat of type \<open>label\<close> is matched, the beat of
  type \<open>speech\<close> is not.\<close>

theorem adaptive_threshold_witness:
  "cueIdx (snd (alignLoop tcues tbeats (Some ttypes) 2) ! 0) \<noteq> None
   \<and> snd (bestCandidate (map (\<lambda>c. normalize (ctext c)) tcues) (length tcues)
            (normalize (tbeats ! 0)) (fst (alignLoop tcues tbeats (Some ttypes) 0))) = 1 / 10
   \<and> ttypes ! 0 = ''label''
   \<and> cueIdx (snd (alignLoop tcues tbeats (Some ttypes) 2) ! 1) = None
   \<and> snd (bestCandidate (map (\<lambda>c. normalize (ctext c)) tcues) (length tcues)
            (normalize (tbeats ! 1)) (fst (alignLoop tcues tbeats (Some ttypes) 1))) = 1 / 10
   \<and> ttypes ! 1 = ''speech''"
proof -
  let ?mp = "snd (alignLoop tcues tbeats (Some ttypes) 2)"
  let ?b0 = "bestCandidate (map (\<lambda>c. normalize (ctext c)) tcues) (length tcues)
            (normalize (tbeats ! 0)) (fst (alignLoop tcues tbeats (Some ttypes) 0))"
  let ?b1 = "bestCandidate (map (\<lambda>c. normalize (ctext c)) tcues) (length tcues)
            (normalize (tbeats ! 1)) (fst (alignLoop tcues tbeats (Some ttypes) 1))"
  have lw: "length tbeats = 2" by (simp add: tbeats_def)
  have m: "beatResult.mapping (mapSrtToBeatsIntelligent tcues tbeats (Some ttypes) None None) = Some ?mp"
    by (simp add: mapSrtToBeatsIntelligent_def Let_def lw)
  have i0: "0 < length tbeats" and i1: "1 < length tbeats" by (simp_all add: lw)
  have t0: "Some ''label'' = (case Some ttypes of None \<Rightarrow> None
                   | Some ts \<Rightarrow> if 0 < length ts then Some (ts ! 0) else None)"
    by (simp add: ttypes_def)
  have t1: "Some ''speech'' = (case Some ttypes of None \<Rightarrow> None
                   | Some ts \<Rightarrow> if 1 < length ts then Some (ts ! 1) else None)"
    by (simp add: ttypes_def)
  have ne0: "normalize (tbeats ! 0) \<noteq> []" by code_simp
  have ne1: "normalize (tbeats ! 1) \<noteq> []" by code_simp
  have s0: "snd ?b0 = 1 / 10" by (simp only: tscore0 snd_conv)
  have s1: "snd ?b1 = 1 / 10" by (simp only: tscore1 snd_conv)
  have "Some ''label'' = Some ''label'' \<longrightarrow> (cueIdx (?mp ! 0) \<noteq> None \<longleftrightarrow> snd ?b0 \<ge> 8 / 100)"
    by (rule adaptive_threshold[OF m i0 t0 _ _ ne0 refl, THEN conjunct1]) simp_all
  then have "cueIdx (?mp ! 0) \<noteq> None \<longleftrightarrow> (1 / 10 :: rat) \<ge> 8 / 100"
    unfolding s0 by (rule mp) (rule refl)
  then have a: "cueIdx (?mp ! 0) \<noteq> None" by simp
  have "Some ''speech'' \<noteq> Some ''label'' \<longrightarrow> (cueIdx (?mp ! 1) \<noteq> None \<longleftrightarrow> snd ?b1 \<ge> 15 / 100)"
    by (rule adaptive_threshold[OF m i1 t1 _ _ ne1 refl, THEN conjunct2, THEN conjunct1]) simp_all
  then have "cueIdx (?mp ! 1) \<noteq> None \<longleftrightarrow> (1 / 10 :: rat) \<ge> 15 / 100"
    unfolding s1 by (rule mp) simp
  then have b: "cueIdx (?mp ! 1) = None" by simp
  have ty: "ttypes ! 0 = ''label''" "ttypes ! 1 = ''speech''" by (simp_all add: ttypes_def)
  show ?thesis by (intro conjI) (rule a, rule s0, rule ty(1), rule b, rule s1, rule ty(2))
qed

section \<open>interpolateMissing: lengths and the branch without anchors\<close>

lemma fillMatched_fold: "fillMatched mp = foldl fillStep (replicate (length mp) Null) mp"
  by (simp add: fillMatched_def)

lemma fill_no_anchor:
  "\<forall>m\<in>set ms. cueIdx m = None \<Longrightarrow> foldl fillStep ts ms = ts"
  by (induction ms arbitrary: ts) (simp_all add: fillStep_def)

lemma fillMatched_no_anchor:
  "\<forall>m\<in>set mp. cueIdx m = None \<Longrightarrow> fillMatched mp = replicate (length mp) Null"
  by (simp add: fillMatched_fold fill_no_anchor)

lemma fill_prefix:
  assumes "\<forall>i<length mp. beatIdx (mp ! i) = i" "k \<le> length mp"
  shows "foldl fillStep (replicate (length mp) Null) (take k mp)
         = map anchorCell (take k mp) @ replicate (length mp - k) Null"
  using assms(2)
proof (induction k)
  case 0
  then show ?case by simp
next
  case (Suc k)
  then have k: "k < length mp" by simp
  let ?pre = "map anchorCell (take k mp)"
  have ih: "foldl fillStep (replicate (length mp) Null) (take k mp)
              = ?pre @ replicate (length mp - k) Null"
    using Suc by simp
  have rep: "replicate (length mp - k) Null = Null # replicate (length mp - Suc k) Null"
    using k by (metis Suc_diff_Suc replicate_Suc)
  have lp: "length ?pre = k" using k by simp
  have step: "fillStep (?pre @ Null # replicate (length mp - Suc k) Null) (mp ! k)
              = ?pre @ anchorCell (mp ! k) # replicate (length mp - Suc k) Null"
  proof (cases "cueIdx (mp ! k) = None")
    case True
    then show ?thesis by (simp add: fillStep_def anchorCell_def)
  next
    case False
    have b: "beatIdx (mp ! k) = k" using assms(1) k by simp
    have "store (?pre @ Null # replicate (length mp - Suc k) Null) k (ofNumber (time (mp ! k)))
            = ?pre @ ofNumber (time (mp ! k)) # replicate (length mp - Suc k) Null"
      using lp k by (simp add: store_def list_update_append)
    then show ?thesis using False b by (simp add: fillStep_def anchorCell_def)
  qed
  show ?case
    using k ih step by (simp add: take_Suc_conv_app_nth rep)
qed

lemma fillMatched_wf:
  assumes "\<forall>i<length mp. beatIdx (mp ! i) = i"
  shows "fillMatched mp = map anchorCell mp"
  using fill_prefix[OF assms, of "length mp"] by (simp add: fillMatched_fold)

lemma interpStep_length: "length (interpStep fl ce ts i) = length ts"
  by (simp add: interpStep_def Let_def)

lemma interp_foldl_length: "length (foldl (interpStep fl ce) ts xs) = length ts"
  by (induction xs arbitrary: ts) (simp_all add: interpStep_length)

lemma interpolateMissing_length:
  "length (interpolateMissing mp cs segStart segEnd) = length (fillMatched mp)"
  by (simp add: interpolateMissing_def Let_def interp_foldl_length)

lemma wfMapping_beatIdx: "wfMapping cs mp \<Longrightarrow> \<forall>i<length mp. beatIdx (mp ! i) = i"
  by (simp add: wfMapping_def wfEntry_def)

lemma interpolateMissing_length_wf:
  "wfMapping cs mp \<Longrightarrow> length (interpolateMissing mp cs segStart segEnd) = length mp"
  by (simp add: interpolateMissing_length fillMatched_wf[OF wfMapping_beatIdx])

text \<open>
  \<^bold>\<open>C9\<close>, as the code has it. For every cue list and every non-empty list of beat texts,
  \<open>mapSrtToBeatsIntelligent\<close> returns a mapping list and a \<open>beatTimes\<close> array that both
  have the length of the beat list. For the empty beat list the guard at the head of the
  function returns the fallback result: \<open>mapping\<close> is \<open>null\<close> and \<open>beatTimes\<close> holds the
  start time of every cue.
\<close>

theorem mapping_lengths:
  "(beatTexts \<noteq> [] \<longrightarrow>
      (\<exists>mp. beatResult.mapping (mapSrtToBeatsIntelligent cs beatTexts beatTypes segStart segEnd) = Some mp
            \<and> length mp = length beatTexts)
      \<and> length (beatTimes (mapSrtToBeatsIntelligent cs beatTexts beatTypes segStart segEnd))
          = length beatTexts)
   \<and> (beatTexts = [] \<longrightarrow>
        beatResult.mapping (mapSrtToBeatsIntelligent cs beatTexts beatTypes segStart segEnd) = None
        \<and> beatTimes (mapSrtToBeatsIntelligent cs beatTexts beatTypes segStart segEnd)
            = map (\<lambda>c. Num (cue.startTime c)) cs)"
proof -
  let ?mp = "snd (alignLoop cs beatTexts beatTypes (length beatTexts))"
  have wf: "wfMapping cs ?mp"
    using alignLoop_inv[of cs beatTexts beatTypes "length beatTexts"] by (simp add: alignInv_def)
  have l: "length ?mp = length beatTexts" by (rule alignLoop_length)
  have "length (interpolateMissing ?mp cs segStart segEnd) = length beatTexts"
    using interpolateMissing_length_wf[OF wf] l by simp
  then show ?thesis
    using l by (simp add: mapSrtToBeatsIntelligent_def Let_def)
qed

theorem mapping_lengths_witness:
  "length (the (beatResult.mapping (mapSrtToBeatsIntelligent wcues wbeats None None None))) = 3
   \<and> length (beatTimes (mapSrtToBeatsIntelligent wcues wbeats None None None)) = 3
   \<and> beatResult.mapping (mapSrtToBeatsIntelligent wcues [] None None None) = None
   \<and> beatTimes (mapSrtToBeatsIntelligent wcues [] None None None) = [Num 0, Num 3, Num 6]"
proof -
  have lw: "length wbeats = 3" and ne: "wbeats \<noteq> []" by (simp_all add: wbeats_def)
  have "map (\<lambda>c. Num (cue.startTime c)) wcues = [Num 0, Num 3, Num 6]"
    by (simp add: wcues_def)
  then show ?thesis
    using mapping_lengths[of wbeats wcues None None None]
      mapping_lengths[of "[]" wcues None None None] lw ne
    by auto
qed

text \<open>With no beats and three cues the mapping is \<open>null\<close> and \<open>beatTimes\<close> has three
  entries, not zero.\<close>

theorem mapping_lengths_counterexample:
  "beatResult.mapping (mapSrtToBeatsIntelligent wcues [] None None None) = None
   \<and> length (beatTimes (mapSrtToBeatsIntelligent wcues [] None None None)) = 3
   \<and> length ([] :: string list) = 0"
  by (simp add: mapSrtToBeatsIntelligent_def wcues_def)

lemma roundMs_Num: "roundMs (Num x) = Num (of_int (mathRound (x * 1000)) / 1000)"
  by (simp add: roundMs_def toNumber_def)

lemma not_hasAnchors_replicate: "\<not> hasAnchors (replicate n Null)"
  by (simp add: hasAnchors_def)

lemma mathRound_near: "\<bar>of_int (mathRound (x * 1000)) / 1000 - x\<bar> \<le> (1 / 2000 :: rat)"
proof -
  let ?k = "mathRound (x * 1000)"
  have a: "of_int ?k \<le> x * 1000 + 1 / 2" unfolding mathRound_def by (rule of_int_floor_le)
  have b: "x * 1000 + 1 / 2 < of_int ?k + 1" unfolding mathRound_def by linarith
  have c: "\<bar>of_int ?k - x * 1000\<bar> \<le> 1 / 2" using a b by linarith
  have "of_int ?k / 1000 - x = (of_int ?k - x * 1000) / 1000" by (simp add: diff_divide_distrib)
  then have e: "\<bar>of_int ?k / 1000 - x\<bar> = \<bar>of_int ?k - x * 1000\<bar> / 1000"
    by (simp only: abs_divide abs_numeral)
  have "\<bar>of_int ?k - x * 1000\<bar> / 1000 \<le> (1 / 2) / 1000"
    using c by (rule divide_right_mono) simp
  then show ?thesis unfolding e by simp
qed

lemma no_anchor_times:
  assumes "\<forall>m\<in>set mp. cueIdx m = None"
  shows "interpolateMissing mp cs segStart segEnd
           = map (\<lambda>i. Num (of_int (mathRound
                    (evenTime (floorTimeOf cs segStart) (ceilTimeOf mp cs segEnd) (length mp) i * 1000)) / 1000))
               [0..<length mp]"
proof -
  have f: "fillMatched mp = replicate (length mp) Null"
    by (rule fillMatched_no_anchor[OF assms(1)])
  show ?thesis
    by (simp add: interpolateMissing_def Let_def f not_hasAnchors_replicate roundMs_Num o_def)
qed

text \<open>
  \<^bold>\<open>C7\<close>. When no beat has a matched cue, \<open>interpolateMissing\<close> returns one time for each of
  the \<open>N\<close> beats, and the time of beat \<open>i\<close> is a whole number of milliseconds that lies less
  than a millisecond from the even spread \<open>fl + i / (N - 1) * (ce - fl)\<close>, for a single beat
  from the midpoint \<open>(fl + ce) / 2\<close>; \<open>fl\<close> and \<open>ce\<close> are the segment bounds when given, else
  the start of the first cue and the end of the last cue, else 0 and \<open>N * 2\<close>. In particular
  4 beats with the bounds 10 and 18 get the times 10, 12.667, 15.333 and 18.

  The statement does not say to which side a time half-way between two milliseconds goes:
  the source rounds the double it has computed, which at such a point may lie on either
  side of the exact value.
\<close>

theorem no_anchors_even_spread:
  assumes "\<forall>m\<in>set mp. cueIdx m = None"
    and "fl = (case segStart of Some s \<Rightarrow> s
               | None \<Rightarrow> if cs \<noteq> [] then cue.startTime (cs ! 0) else 0)"
    and "ce = (case segEnd of Some e \<Rightarrow> e
               | None \<Rightarrow> if cs \<noteq> [] then cue.endTime (cs ! (length cs - 1))
                          else of_nat (length mp) * 2)"
  shows "length (interpolateMissing mp cs segStart segEnd) = length mp
         \<and> (\<forall>i<length mp. \<exists>t k.
               interpolateMissing mp cs segStart segEnd ! i = Num t
               \<and> t = of_int k / 1000
               \<and> \<bar>t - (if length mp = 1 then (fl + ce) / 2
                        else fl + (of_nat i / of_nat (length mp - 1)) * (ce - fl))\<bar> < 1 / 1000)
         \<and> (length mp = 4 \<longrightarrow>
              interpolateMissing mp cs (Some 10) (Some 18)
                = [Num 10, Num (12667 / 1000), Num (15333 / 1000), Num 18])"
proof -
  have fl: "floorTimeOf cs segStart = fl"
    by (simp add: floorTimeOf_def assms(2) split: option.splits)
  have ce: "ceilTimeOf mp cs segEnd = ce"
    by (simp add: ceilTimeOf_def assms(3) split: option.splits)
  note gen = no_anchor_times[OF assms(1)]
  have 1: "length (interpolateMissing mp cs segStart segEnd) = length mp"
    unfolding gen by simp
  have 2: "\<forall>i<length mp. \<exists>t k.
               interpolateMissing mp cs segStart segEnd ! i = Num t
               \<and> t = of_int k / 1000
               \<and> \<bar>t - (if length mp = 1 then (fl + ce) / 2
                        else fl + (of_nat i / of_nat (length mp - 1)) * (ce - fl))\<bar> < 1 / 1000"
  proof (intro allI impI)
    fix i assume i: "i < length mp"
    let ?x = "if length mp = 1 then (fl + ce) / 2
              else fl + (of_nat i / of_nat (length mp - 1)) * (ce - fl)"
    let ?k = "mathRound (?x * 1000)"
    have e: "evenTime fl ce (length mp) i = ?x" by (simp add: evenTime_def)
    have "interpolateMissing mp cs segStart segEnd ! i
            = Num (of_int (mathRound (evenTime fl ce (length mp) i * 1000)) / 1000)"
      unfolding gen fl ce using i
      by (simp only: nth_map length_upt minus_nat.diff_0 nth_upt add_0)
    then have a: "interpolateMissing mp cs segStart segEnd ! i = Num (of_int ?k / 1000)"
      unfolding e .
    have "\<bar>of_int ?k / 1000 - ?x\<bar> \<le> 1 / 2000" by (rule mathRound_near)
    then have c: "\<bar>of_int ?k / 1000 - ?x\<bar> < 1 / 1000" by linarith
    show "\<exists>t k. interpolateMissing mp cs segStart segEnd ! i = Num t
               \<and> t = of_int k / 1000 \<and> \<bar>t - ?x\<bar> < 1 / 1000"
      by (intro exI conjI) (rule a, rule refl, rule c)
  qed
  have 3: "length mp = 4 \<longrightarrow>
              interpolateMissing mp cs (Some 10) (Some 18)
                = [Num 10, Num (12667 / 1000), Num (15333 / 1000), Num 18]"
  proof
    assume l: "length mp = 4"
    have u: "[0..<4] = [0, 1, 2, 3]" by (simp add: upt_rec)
    show "interpolateMissing mp cs (Some 10) (Some 18)
                = [Num 10, Num (12667 / 1000), Num (15333 / 1000), Num 18]"
      unfolding gen l u
      by (simp add: floorTimeOf_def ceilTimeOf_def evenTime_def mathRound_def floor_eq_iff)
  qed
  show ?thesis by (intro conjI) (rule 1, rule 2, rule 3)
qed

theorem no_anchors_even_spread_witness:
  "interpolateMissing
     [unmatchedBeat 0 [] None, unmatchedBeat 1 ''Xyzzy123'' None,
      unmatchedBeat 2 ''chart'' (Some ''data''), unmatchedBeat 3 [] (Some ''silent'')]
     wcues (Some 10) (Some 18)
   = [Num 10, Num (12667 / 1000), Num (15333 / 1000), Num 18]
   \<and> (\<exists>t k. interpolateMissing [unmatchedBeat 0 ''Xyzzy123'' None] wcues
               (Some (669 / 1000)) (Some (5896 / 1000)) ! 0 = Num t
            \<and> t = of_int k / 1000 \<and> \<bar>t - 32825 / 10000\<bar> < 1 / 1000)
   \<and> (\<exists>t k. interpolateMissing [unmatchedBeat 0 [] None, unmatchedBeat 1 [] None, unmatchedBeat 2 [] None]
               wcues None None ! 1 = Num t
            \<and> t = of_int k / 1000 \<and> \<bar>t - 9 / 2\<bar> < 1 / 1000)
   \<and> (\<exists>t k. interpolateMissing [unmatchedBeat 0 [] None, unmatchedBeat 1 [] None] [] None None ! 1
               = Num t
            \<and> t = of_int k / 1000 \<and> \<bar>t - 4\<bar> < 1 / 1000)"
proof -
  let ?mp = "[unmatchedBeat 0 [] None, unmatchedBeat 1 ''Xyzzy123'' None,
      unmatchedBeat 2 ''chart'' (Some ''data''), unmatchedBeat 3 [] (Some ''silent'')]"
  let ?m1 = "[unmatchedBeat 0 ''Xyzzy123'' None]"
  let ?m3 = "[unmatchedBeat 0 [] None, unmatchedBeat 1 [] None, unmatchedBeat 2 [] None]"
  let ?m2 = "[unmatchedBeat 0 [] None, unmatchedBeat 1 [] None]"
  have h: "\<forall>m\<in>set ?mp. cueIdx m = None" by (simp add: unmatchedBeat_def)
  have a: "interpolateMissing ?mp wcues (Some 10) (Some 18)
             = [Num 10, Num (12667 / 1000), Num (15333 / 1000), Num 18]"
    using no_anchors_even_spread[where mp="?mp" and segStart="Some 10" and cs=wcues
        and segEnd="Some 18", OF h refl refl, THEN conjunct2, THEN conjunct2]
    by simp
  have h1: "\<forall>m\<in>set ?m1. cueIdx m = None" by (simp add: unmatchedBeat_def)
  have "\<forall>i<length ?m1. \<exists>t k.
          interpolateMissing ?m1 wcues (Some (669 / 1000)) (Some (5896 / 1000)) ! i = Num t
          \<and> t = of_int k / 1000
          \<and> \<bar>t - (if length ?m1 = 1 then (669 / 1000 + 5896 / 1000) / 2
                   else 669 / 1000 + (of_nat i / of_nat (length ?m1 - 1)) * (5896 / 1000 - 669 / 1000))\<bar>
              < 1 / 1000"
    using no_anchors_even_spread[where mp="?m1" and segStart="Some (669 / 1000)"
        and cs=wcues and segEnd="Some (5896 / 1000)", OF h1 refl refl, THEN conjunct2, THEN conjunct1]
    by simp
  then have b: "\<exists>t k. interpolateMissing ?m1 wcues (Some (669 / 1000)) (Some (5896 / 1000)) ! 0 = Num t
            \<and> t = of_int k / 1000 \<and> \<bar>t - 32825 / 10000\<bar> < 1 / 1000"
    by simp
  have h3: "\<forall>m\<in>set ?m3. cueIdx m = None" by (simp add: unmatchedBeat_def)
  have "\<forall>i<length ?m3. \<exists>t k.
          interpolateMissing ?m3 wcues None None ! i = Num t
          \<and> t = of_int k / 1000
          \<and> \<bar>t - (if length ?m3 = 1 then (0 + 9) / 2
                   else 0 + (of_nat i / of_nat (length ?m3 - 1)) * (9 - 0))\<bar> < 1 / 1000"
    using no_anchors_even_spread[where mp="?m3" and segStart=None
        and cs=wcues and segEnd=None, OF h3 refl refl, THEN conjunct2, THEN conjunct1]
    by (simp add: wcues_def)
  then have "1 < length ?m3 \<longrightarrow> (\<exists>t k.
          interpolateMissing ?m3 wcues None None ! 1 = Num t
          \<and> t = of_int k / 1000
          \<and> \<bar>t - (if length ?m3 = 1 then (0 + 9) / 2
                   else 0 + (of_nat 1 / of_nat (length ?m3 - 1)) * (9 - 0))\<bar> < 1 / 1000)"
    by (rule spec)
  then have c: "\<exists>t k. interpolateMissing ?m3 wcues None None ! 1 = Num t
            \<and> t = of_int k / 1000 \<and> \<bar>t - 9 / 2\<bar> < 1 / 1000"
    by simp
  have h2: "\<forall>m\<in>set ?m2. cueIdx m = None" by (simp add: unmatchedBeat_def)
  have "\<forall>i<length ?m2. \<exists>t k.
          interpolateMissing ?m2 [] None None ! i = Num t
          \<and> t = of_int k / 1000
          \<and> \<bar>t - (if length ?m2 = 1 then (0 + of_nat (length ?m2) * 2) / 2
                   else 0 + (of_nat i / of_nat (length ?m2 - 1)) * (of_nat (length ?m2) * 2 - 0))\<bar>
              < 1 / 1000"
    using no_anchors_even_spread[where mp="?m2" and segStart=None
        and cs="[]" and segEnd=None, OF h2 refl refl, THEN conjunct2, THEN conjunct1]
    by simp
  then have "1 < length ?m2 \<longrightarrow> (\<exists>t k.
          interpolateMissing ?m2 [] None None ! 1 = Num t
          \<and> t = of_int k / 1000
          \<and> \<bar>t - (if length ?m2 = 1 then (0 + of_nat (length ?m2) * 2) / 2
                   else 0 + (of_nat 1 / of_nat (length ?m2 - 1)) * (of_nat (length ?m2) * 2 - 0))\<bar>
              < 1 / 1000)"
    by (rule spec)
  then have d: "\<exists>t k. interpolateMissing ?m2 [] None None ! 1 = Num t
            \<and> t = of_int k / 1000 \<and> \<bar>t - 4\<bar> < 1 / 1000"
    by simp
  show ?thesis by (intro conjI) (rule a, rule b, rule c, rule d)
qed

section \<open>timeToSeconds\<close>

lemma code_chars:
  "code (CHR ''-'') = 45" "code (CHR ''+'') = 43" "code (CHR ''.'') = 46" "code (CHR '','') = 44"
  "code (CHR '':'') = 58" "code (CHR ''e'') = 101" "code (CHR ''E'') = 69"
  by (simp_all add: code_def)

lemma units_Infinity: "unitsOf ''Infinity'' = [73, 110, 102, 105, 110, 105, 116, 121]"
  by (simp add: unitsOf_def code_def)

lemma units_digits: "u \<in> set (unitsOf ''0123456789'') \<longleftrightarrow> isDigit u"
proof -
  have "unitsOf ''0123456789'' = [48, 49, 50, 51, 52, 53, 54, 55, 56, 57]"
    by (simp add: unitsOf_def code_def)
  then show ?thesis unfolding isDigit_def by simp arith
qed

lemma units_stops: "unitsOf ''.,eE'' = [46, 44, 101, 69]"
  by (simp add: unitsOf_def code_def)

lemma split_nonempty: "split sep s \<noteq> []"
  by (induction s) (auto split: list.splits)

lemma length_split: "length (split sep s) = Suc (length (filter (\<lambda>c. c = sep) s))"
  by (induction s) (auto split: list.splits simp: split_nonempty)

lemma colons_replaceFirstComma:
  "filter (\<lambda>c. c = 58) (replaceFirstComma s) = filter (\<lambda>c. c = 58) s"
  by (induction s) (auto simp: code_chars)

lemma timeToSeconds_other:
  assumes "length (filter (\<lambda>u. u = code (CHR '':'')) s) \<noteq> 2"
  shows "timeToSeconds s = (if s = [] then Fin 0 else orZero (parseFloat (replaceFirstComma s)))"
  using assms
  by (simp add: timeToSeconds_def Let_def length_split code_chars colons_replaceFirstComma)

lemma orZero_not_NaN: "orZero v \<noteq> NaN"
  by (simp add: orZero_def)

lemma takeWhile_none: "\<forall>c\<in>set s. \<not> P c \<Longrightarrow> takeWhile P s = []"
  by (cases s) auto

lemma startsWith_includes: "startsWith s p \<Longrightarrow> includesStr s p"
  by (cases s; cases p) auto

lemma includes_tl: "p \<noteq> [] \<Longrightarrow> includesStr (tl s) p \<Longrightarrow> includesStr s p"
  by (cases s) auto

lemma includes_dropWhile: "p \<noteq> [] \<Longrightarrow> includesStr (dropWhile P s) p \<Longrightarrow> includesStr s p"
  by (induction s) (auto split: if_splits)

lemma startsWith_replaceFirstComma:
  "46 \<notin> set p \<Longrightarrow> startsWith (replaceFirstComma s) p \<Longrightarrow> startsWith s p"
proof (induction s arbitrary: p)
  case Nil
  then show ?case by simp
next
  case (Cons c cs)
  show ?case
  proof (cases p)
    case Nil
    then show ?thesis by simp
  next
    case (Cons q qs)
    then show ?thesis using Cons.prems Cons.IH[of qs]
      by (auto simp: code_chars split: if_splits)
  qed
qed

lemma includes_replaceFirstComma:
  "46 \<notin> set p \<Longrightarrow> p \<noteq> [] \<Longrightarrow> includesStr (replaceFirstComma s) p \<Longrightarrow> includesStr s p"
proof (induction s)
  case Nil
  then show ?case by simp
next
  case (Cons c cs)
  show ?case
  proof (cases "c = code (CHR '','')")
    case True
    then have "startsWith (46 # cs) p \<or> includesStr cs p"
      using Cons.prems(3) by (simp add: code_chars)
    moreover have "\<not> startsWith (46 # cs) p"
      using Cons.prems(1,2) by (cases p) auto
    ultimately show ?thesis by simp
  next
    case False
    then have "startsWith (replaceFirstComma (c # cs)) p \<or> includesStr (replaceFirstComma cs) p"
      using Cons.prems(3) by simp
    then show ?thesis
    proof
      assume "startsWith (replaceFirstComma (c # cs)) p"
      then have "startsWith (c # cs) p" by (rule startsWith_replaceFirstComma[OF Cons.prems(1)])
      then show ?thesis by simp
    next
      assume "includesStr (replaceFirstComma cs) p"
      then have "includesStr cs p" by (rule Cons.IH[OF Cons.prems(1,2)])
      then show ?thesis by simp
    qed
  qed
qed

lemma set_replaceFirstComma: "set (replaceFirstComma s) \<subseteq> insert 46 (set s)"
  by (induction s) (auto simp: code_chars)

lemma parseUnsigned_NaN:
  assumes "\<forall>u\<in>set s. \<not> isDigit u" and "\<not> startsWith s (unitsOf ''Infinity'')"
  shows "parseUnsigned s = NaN"
proof -
  have ip: "takeWhile isDigit s = []" using assms(1) by (rule takeWhile_none)
  have "\<forall>u\<in>set (tl (dropWhile isDigit s)). \<not> isDigit u"
    using assms(1) by (metis list.set_sel(2) set_dropWhileD tl_Nil)
  then have fp: "takeWhile isDigit (tl (dropWhile isDigit s)) = []" by (rule takeWhile_none)
  show ?thesis by (simp add: parseUnsigned_def Let_def assms(2) ip fp)
qed

lemma parseFloat_NaN:
  assumes "\<forall>u\<in>set s. \<not> isDigit u" and "\<not> includesStr s (unitsOf ''Infinity'')"
  shows "parseFloat s = NaN"
proof -
  let ?t = "dropWhile isSpaceUnit s"
  have ne: "unitsOf ''Infinity'' \<noteq> []" by (simp add: units_Infinity)
  have t: "\<forall>u\<in>set ?t. \<not> isDigit u" using assms(1) by (meson set_dropWhileD)
  then have tl: "\<forall>u\<in>set (tl ?t). \<not> isDigit u" by (metis list.set_sel(2) tl_Nil)
  have it: "\<not> includesStr ?t (unitsOf ''Infinity'')"
    using assms(2) includes_dropWhile[OF ne] by blast
  then have itl: "\<not> includesStr (tl ?t) (unitsOf ''Infinity'')"
    using includes_tl[OF ne] by blast
  have st: "\<not> startsWith ?t (unitsOf ''Infinity'')" using it startsWith_includes by blast
  have stl: "\<not> startsWith (tl ?t) (unitsOf ''Infinity'')" using itl startsWith_includes by blast
  show ?thesis
    by (simp add: parseFloat_def Let_def parseUnsigned_NaN[OF t st] parseUnsigned_NaN[OF tl stl]
        jsNeg_def)
qed

lemma digit_not_space: "isDigit u \<Longrightarrow> \<not> isSpaceUnit u"
  by (simp add: isDigit_def isSpaceUnit_def)

lemma replaceFirstComma_append:
  "44 \<notin> set ds \<Longrightarrow> replaceFirstComma (ds @ r) = ds @ replaceFirstComma r"
  by (induction ds) (auto simp: code_chars)

lemma replaceFirstComma_hd:
  "r \<noteq> [] \<Longrightarrow> hd r \<noteq> 44 \<Longrightarrow> replaceFirstComma r \<noteq> [] \<and> hd (replaceFirstComma r) = hd r"
  by (cases r) (auto simp: code_chars)

lemma jsNumber_exact: "n < 2 ^ 53 \<Longrightarrow> jsNumber (of_nat n) = Fin (of_nat n)"
proof -
  assume n: "n < 2 ^ 53"
  have "(of_nat n :: rat) < of_nat (2 ^ 53)" using n by (simp only: of_nat_less_iff)
  then have a: "(of_nat n :: rat) < 2 ^ 53" by simp
  have b: "(2::rat) ^ 53 \<le> 2 ^ 1024 - 2 ^ 970" by simp
  have c: "(0::rat) \<le> of_nat n" by simp
  have g: "(0::rat) < 2 ^ 53" by simp
  show ?thesis
  proof (cases "n = 0")
    case True
    then show ?thesis by (simp add: jsNumber_def)
  next
    case False
    then have "(1::rat) \<le> of_nat n" by (simp add: Suc_le_eq)
    moreover have "(1 :: rat) / 2 ^ 1075 < 1" by simp
    ultimately have d: "\<not> \<bar>of_nat n :: rat\<bar> \<le> 1 / 2 ^ 1075" by linarith
    have e: "\<not> (of_nat n :: rat) \<ge> 2 ^ 1024 - 2 ^ 970" using a b by linarith
    have f: "\<not> (of_nat n :: rat) \<le> - (2 ^ 1024 - 2 ^ 970)" using c b g by linarith
    show ?thesis unfolding jsNumber_def using d e f by (simp only: if_False)
  qed
qed

lemma parseFloat_digits:
  assumes ne: "ds \<noteq> []" and dg: "\<forall>u\<in>set ds. isDigit u"
    and r: "r = [] \<or> (\<not> isDigit (hd r) \<and> hd r \<noteq> 46 \<and> hd r \<noteq> 101 \<and> hd r \<noteq> 69)"
  shows "parseFloat (ds @ r) = jsNumber (of_nat (digitsValue ds))"
proof -
  obtain d ds' where ds: "ds = d # ds'" using ne by (cases ds) auto
  have d: "isDigit d" using dg ds by simp
  then have dn: "d \<noteq> 45" "d \<noteq> 43" "d \<noteq> 73" by (simp_all add: isDigit_def)
  have sp: "dropWhile isSpaceUnit (ds @ r) = ds @ r"
    using digit_not_space[OF d] ds by simp
  have nr: "takeWhile isDigit r = []" using r by (cases r) auto
  have ip: "takeWhile isDigit (ds @ r) = ds"
    using dg nr by (simp add: takeWhile_append2)
  have dr: "dropWhile isDigit r = r" using r by (cases r) auto
  have r1: "dropWhile isDigit (ds @ r) = r"
    using dg dr by (simp add: dropWhile_append2)
  have ex: "exponentOf r = 0" using r by (auto simp: exponentOf_def code_chars)
  have inf: "\<not> startsWith (ds @ r) (unitsOf ''Infinity'')"
    using dn(3) ds by (simp add: units_Infinity)
  have dot: "(r \<noteq> [] \<and> hd r = code (CHR ''.'')) = False" using r by (auto simp: code_chars)
  have pu: "parseUnsigned (ds @ r) = jsNumber (of_nat (digitsValue ds))"
    unfolding parseUnsigned_def Let_def ip r1 dot using inf ne ex
    by (simp add: scale10_def)
  have hdd: "hd (ds @ r) = d" "ds @ r \<noteq> []" using ds by simp_all
  show ?thesis
    unfolding parseFloat_def Let_def sp hdd(1) using dn pu by (simp add: code_chars)
qed

text \<open>
  \<^bold>\<open>C4\<close>, as the code has it by design. \<open>timeToSeconds\<close> is a total function of its input
  string: no step of it throws. The empty string parses to 0. A string that does not have
  exactly two \<open>:\<close>, and so does not split into three parts, never parses to \<open>NaN\<close>: it parses
  to 0 when it holds no decimal digit and does not contain \<open>Infinity\<close>, and to the integer
  at its start when it starts with decimal digits (an integer below \<open>2^53\<close>) that are
  followed by nothing or by a character other than a digit, \<open>.\<close>, \<open>,\<close>, \<open>e\<close> and \<open>E\<close>.
\<close>

theorem timeToSeconds_lenient:
  "timeToSeconds [] = Fin 0
   \<and> (length (filter (\<lambda>u. u = code (CHR '':'')) s) \<noteq> 2 \<longrightarrow> timeToSeconds s \<noteq> NaN)
   \<and> (length (filter (\<lambda>u. u = code (CHR '':'')) s) \<noteq> 2
        \<and> (\<forall>u\<in>set s. u \<notin> set (unitsOf ''0123456789''))
        \<and> \<not> includesStr s (unitsOf ''Infinity'') \<longrightarrow>
        timeToSeconds s = Fin 0)
   \<and> (length (filter (\<lambda>u. u = code (CHR '':'')) s) \<noteq> 2
        \<and> s = ds @ r \<and> ds \<noteq> [] \<and> set ds \<subseteq> set (unitsOf ''0123456789'')
        \<and> digitsValue ds < 2 ^ 53
        \<and> (r = [] \<or> hd r \<notin> set (unitsOf ''0123456789'') \<union> set (unitsOf ''.,eE'')) \<longrightarrow>
        timeToSeconds s = Fin (of_nat (digitsValue ds)))"
proof -
  let ?other = "length (filter (\<lambda>u. u = code (CHR '':'')) s) \<noteq> 2"
  have 1: "timeToSeconds [] = Fin 0" by (simp add: timeToSeconds_def)
  have 2: "?other \<longrightarrow> timeToSeconds s \<noteq> NaN"
    by (simp add: timeToSeconds_other orZero_not_NaN)
  have 3: "?other \<and> (\<forall>u\<in>set s. u \<notin> set (unitsOf ''0123456789''))
        \<and> \<not> includesStr s (unitsOf ''Infinity'') \<longrightarrow> timeToSeconds s = Fin 0"
  proof
    assume a: "?other \<and> (\<forall>u\<in>set s. u \<notin> set (unitsOf ''0123456789''))
        \<and> \<not> includesStr s (unitsOf ''Infinity'')"
    have nd: "\<forall>u\<in>set s. \<not> isDigit u" using a units_digits by blast
    have "\<not> isDigit 46" by (simp add: isDigit_def)
    then have d: "\<forall>u\<in>set (replaceFirstComma s). \<not> isDigit u"
      using nd set_replaceFirstComma[of s] by auto
    have "46 \<notin> set (unitsOf ''Infinity'')" "unitsOf ''Infinity'' \<noteq> []"
      by (simp_all add: units_Infinity)
    then have i: "\<not> includesStr (replaceFirstComma s) (unitsOf ''Infinity'')"
      using a includes_replaceFirstComma by blast
    have "parseFloat (replaceFirstComma s) = NaN" using d i by (rule parseFloat_NaN)
    then show "timeToSeconds s = Fin 0"
      using a by (simp add: timeToSeconds_other orZero_def)
  qed
  have 4: "?other \<and> s = ds @ r \<and> ds \<noteq> [] \<and> set ds \<subseteq> set (unitsOf ''0123456789'')
        \<and> digitsValue ds < 2 ^ 53
        \<and> (r = [] \<or> hd r \<notin> set (unitsOf ''0123456789'') \<union> set (unitsOf ''.,eE'')) \<longrightarrow>
        timeToSeconds s = Fin (of_nat (digitsValue ds))"
  proof
    assume a: "?other \<and> s = ds @ r \<and> ds \<noteq> [] \<and> set ds \<subseteq> set (unitsOf ''0123456789'')
        \<and> digitsValue ds < 2 ^ 53
        \<and> (r = [] \<or> hd r \<notin> set (unitsOf ''0123456789'') \<union> set (unitsOf ''.,eE''))"
    then have s: "s = ds @ r" and ne: "ds \<noteq> []" and v: "digitsValue ds < 2 ^ 53" by simp_all
    have dg: "\<forall>u\<in>set ds. isDigit u" using a units_digits by blast
    have "\<not> isDigit 44" by (simp add: isDigit_def)
    then have nc: "44 \<notin> set ds" using dg by blast
    have r: "r = [] \<or> (\<not> isDigit (hd r) \<and> hd r \<noteq> 46 \<and> hd r \<noteq> 44 \<and> hd r \<noteq> 101 \<and> hd r \<noteq> 69)"
      using a units_digits[of "hd r"] by (auto simp: units_stops)
    let ?r = "replaceFirstComma r"
    have r': "?r = [] \<or> (\<not> isDigit (hd ?r) \<and> hd ?r \<noteq> 46 \<and> hd ?r \<noteq> 101 \<and> hd ?r \<noteq> 69)"
    proof (cases "r = []")
      case True
      then show ?thesis by simp
    next
      case False
      then have "hd ?r = hd r" using r replaceFirstComma_hd[of r] by simp
      then show ?thesis using r False by simp
    qed
    have "parseFloat (replaceFirstComma s) = jsNumber (of_nat (digitsValue ds))"
      unfolding s replaceFirstComma_append[OF nc] by (rule parseFloat_digits[OF ne dg r'])
    then have p: "parseFloat (replaceFirstComma s) = Fin (of_nat (digitsValue ds))"
      by (simp add: jsNumber_exact[OF v])
    have sne: "s \<noteq> []" using s ne by simp
    have o: "?other" using a by (rule conjunct1)
    have "timeToSeconds s = orZero (parseFloat (replaceFirstComma s))"
      unfolding timeToSeconds_other[OF o] using sne by (simp only: if_False)
    then show "timeToSeconds s = Fin (of_nat (digitsValue ds))"
      unfolding p by (simp add: orZero_def)
  qed
  show ?thesis by (intro conjI) (rule 1, rule 2, rule 3, rule 4)
qed

theorem timeToSeconds_lenient_witness:
  "timeToSeconds (unitsOf ''Infinity'') \<noteq> NaN
   \<and> timeToSeconds (unitsOf ''abc'') = Fin 0
   \<and> timeToSeconds (unitsOf ''12:34'') = Fin 12"
proof -
  have u1: "unitsOf ''Infinity'' = [73, 110, 102, 105, 110, 105, 116, 121]"
    and u2: "unitsOf ''abc'' = [97, 98, 99]"
    and u3: "unitsOf ''12:34'' = [49, 50, 58, 51, 52]"
    and u4: "unitsOf ''12'' = [49, 50]" and u5: "unitsOf '':34'' = [58, 51, 52]"
    and dg: "unitsOf ''0123456789'' = [48, 49, 50, 51, 52, 53, 54, 55, 56, 57]"
    by (simp_all add: unitsOf_def code_def)
  have a: "timeToSeconds (unitsOf ''Infinity'') \<noteq> NaN"
    using timeToSeconds_lenient[of "unitsOf ''Infinity''", THEN conjunct2, THEN conjunct1]
    by (simp add: u1 code_chars)
  have b: "timeToSeconds (unitsOf ''abc'') = Fin 0"
    using timeToSeconds_lenient[of "unitsOf ''abc''", THEN conjunct2, THEN conjunct2, THEN conjunct1]
    by (simp add: u1 u2 dg code_chars)
  have v: "digitsValue (unitsOf ''12'') = 12" by (simp add: u4 digitsValue_def)
  have "timeToSeconds (unitsOf ''12:34'') = Fin (of_nat (digitsValue (unitsOf ''12'')))"
    using timeToSeconds_lenient[of "unitsOf ''12:34''" "unitsOf ''12''" "unitsOf '':34''",
        THEN conjunct2, THEN conjunct2, THEN conjunct2]
    unfolding v by (simp add: u3 u4 u5 dg units_stops code_chars)
  then have c: "timeToSeconds (unitsOf ''12:34'') = Fin 12" unfolding v by simp
  show ?thesis by (intro conjI) (rule a, rule b, rule c)
qed

lemmas timeToSeconds_defs = timeToSeconds_def parseInt10_def parseFloat_def parseUnsigned_def
  exponentOf_def scale10_def digitsValue_def isDigit_def isSpaceUnit_def jsNumber_def jsNeg_def
  orZero_def unitsOf_def code_def Let_def

text \<open>The malformed timestamp \<open>12:34\<close> has one \<open>:\<close> and parses to 12, not to 0.\<close>

theorem timeToSeconds_counterexample:
  "length (filter (\<lambda>u. u = code (CHR '':'')) (unitsOf ''12:34'')) = 1
   \<and> timeToSeconds (unitsOf ''12:34'') = Fin 12
   \<and> timeToSeconds (unitsOf ''12:34'') \<noteq> Fin 0"
  by (simp add: timeToSeconds_defs)

text \<open>A timestamp of three parts without digits gives \<open>NaN\<close>: the sum of the three parts
  has no guard like the \<open>|| 0\<close> of the other branch.\<close>

lemma timeToSeconds_three_parts_NaN: "timeToSeconds (unitsOf ''aa:bb:cc'') = NaN"
  by (simp add: timeToSeconds_defs)

lemma timeToSeconds_wellformed:
  "timeToSeconds (unitsOf ''00:01:02,500'') = Fin (125 / 2)
   \<and> timeToSeconds (unitsOf ''00:01:02.500'') = Fin (125 / 2)"
  by (simp add: timeToSeconds_defs)

text \<open>Outside the range of the doubles \<open>parseFloat\<close> gives an infinity or 0, and white
  space of any kind is skipped (U+2003 here).\<close>

lemma timeToSeconds_range:
  "timeToSeconds (unitsOf ''1e400'') = PosInf \<and> timeToSeconds (unitsOf ''-1e400'') = NegInf
   \<and> timeToSeconds (unitsOf ''1e-400'') = Fin 0
   \<and> timeToSeconds (unitsOf ''Infinity'') = PosInf
   \<and> timeToSeconds (8195 # unitsOf ''7.5 s'') = Fin (15 / 2)"
  by (simp add: timeToSeconds_defs)

section \<open>interpolateSegmentTiming without any matched segment\<close>

text \<open>
  \<^bold>\<open>C10\<close> says that with no matched segment the segment at position \<open>i\<close> gets the range from
  \<open>3 * i\<close> to \<open>3 * (i + 1)\<close>, which is what the last branch of \<open>interpolateSegmentTiming\<close>
  computes. The code reaches that branch for the first segment only: the loop writes the
  times into the list it searches, so from the second segment on the search for a previous
  segment with a start time finds the one just filled, and the branch for "only a previous
  neighbour" adds 3 seconds to the end of that one. Three unmatched segments get the ranges
  0 to 3, 6 to 9 and 12 to 15, not 0 to 3, 3 to 6 and 6 to 9.
\<close>

theorem unmatched_segments_spacing:
  "map (\<lambda>m. (matched m, segmentMatch.startTime m, segmentMatch.endTime m))
     (segmentMatches (mapSrtToSegments wcues wsegs))
   = [(False, Some 0, Some 3), (False, Some 6, Some 9), (False, Some 12, Some 15)]"
  by code_simp

section \<open>mapSrtToSegments: the ranges after pass 2\<close>

lemma winInv_addCueWords: "winInv n (addCueWords ws st) = winInv n st"
  by (simp add: winInv_def addCueWords_def)

lemma winInv_trackScore:
  "winInv n st \<Longrightarrow> start \<le> en \<Longrightarrow> en < n \<Longrightarrow> winInv n (trackScore start en sc st)"
  by (simp add: winInv_def trackScore_def Let_def)

lemma winInv_windowLoop:
  "winInv n st \<Longrightarrow> \<forall>en\<in>set ens. start \<le> en \<and> en < n
     \<Longrightarrow> winInv n (windowLoop cws full content start ens st)"
proof (induction ens arbitrary: st)
  case Nil
  then show ?case by simp
next
  case (Cons en ens)
  let ?st1 = "addCueWords (cws ! en) st"
  let ?st2 = "trackScore start en (windowScore full content ?st1) ?st1"
  have 1: "winInv n ?st1" using Cons.prems(1) by (simp add: winInv_addCueWords)
  have 2: "winInv n ?st2" using 1 Cons.prems(2) by (intro winInv_trackScore) simp_all
  have r: "\<forall>en\<in>set ens. start \<le> en \<and> en < n" using Cons.prems(2) by simp
  show ?case
    using Cons.IH[OF 1 r] Cons.IH[OF 2 r] 2 by (simp add: Let_def)
qed

lemma winInv_startStep:
  "winInv n st \<Longrightarrow> winInv n (startStep cws full content n st start)"
  unfolding startStep_def
  by (rule winInv_windowLoop) (simp_all add: winInv_def)

lemma winInv_foldl:
  "winInv n st \<Longrightarrow> winInv n (foldl (startStep cws full content n) st xs)"
  by (induction xs arbitrary: st) (simp_all add: winInv_startStep)

lemma winInv_bestWindow: "winInv n (bestWindow cws full content n)"
  unfolding bestWindow_def by (rule winInv_foldl) (simp add: winInv_def)

lemma wfRaw_rawMatchOf: "wfRaw (length cs) (rawMatchOf cs seg)"
proof (cases "normalize (script seg) = [] \<or> length (normalize (script seg)) < 10")
  case True
  then show ?thesis by (auto simp: rawMatchOf_def wfRaw_def)
next
  case False
  let ?b = "bestWindow (map (\<lambda>c. remdups (wordsOf (normalize (ctext c)))) cs)
              (remdups (wordsOf (normalize (script seg))))
              (contentWords (remdups (wordsOf (normalize (script seg))))) (length cs)"
  have w: "winInv (length cs) ?b" by (rule winInv_bestWindow)
  have "bestStart ?b \<ge> 0 \<Longrightarrow> nat (bestStart ?b) \<le> nat (bestEnd ?b) \<and> nat (bestEnd ?b) < length cs"
    using w by (auto simp: winInv_def)
  then show ?thesis using False by (simp add: rawMatchOf_def wfRaw_def Let_def)
qed

lemma pass1_wf: "\<forall>m\<in>set (pass1 cs segments). wfRaw (length cs) m"
  by (auto simp: pass1_def wfRaw_rawMatchOf)

lemma pass1_length: "length (pass1 cs segments) = length segments"
  by (simp add: pass1_def)

lemma checkValid_sound:
  "checkValid assigned idx r xs \<Longrightarrow> i \<in> set xs \<Longrightarrow> assigned ! i = Some a
     \<Longrightarrow> (i < idx \<longrightarrow> rangeEnd a < rangeStart r) \<and> (idx < i \<longrightarrow> rangeEnd r < rangeStart a)"
proof (induction xs)
  case Nil
  then show ?case by simp
next
  case (Cons x xs)
  show ?case
  proof (cases "i = x")
    case True
    then show ?thesis using Cons.prems by (auto split: if_splits)
  next
    case False
    then have "i \<in> set xs" using Cons.prems(2) by simp
    moreover have "checkValid assigned idx r xs"
      using Cons.prems(1) by (auto split: option.splits if_splits)
    ultimately show ?thesis using Cons.IH Cons.prems(3) by blast
  qed
qed

lemma orderedRanges_I:
  assumes "\<And>i j a b. i < j \<Longrightarrow> j < length assigned \<Longrightarrow> assigned ! i = Some a
             \<Longrightarrow> assigned ! j = Some b \<Longrightarrow> rangeEnd a < rangeStart b"
  shows "orderedRanges assigned"
  unfolding orderedRanges_def using assms by blast

lemma orderedRanges_D:
  assumes "orderedRanges assigned" "i < j" "j < length assigned" "assigned ! i = Some a"
    "assigned ! j = Some b"
  shows "rangeEnd a < rangeStart b"
  using assms unfolding orderedRanges_def by blast

lemma orderedRanges_update:
  assumes o: "orderedRanges assigned" and v: "checkValid assigned idx r [0..<length assigned]"
    and idx: "idx < length assigned"
  shows "orderedRanges (assigned[idx := Some r])"
proof (rule orderedRanges_I)
  fix i j a b
  assume h: "i < j" "j < length (assigned[idx := Some r])"
    "assigned[idx := Some r] ! i = Some a" "assigned[idx := Some r] ! j = Some b"
  have j: "j < length assigned" and i: "i < length assigned" using h(1,2) by simp_all
  show "rangeEnd a < rangeStart b"
  proof (cases "i = idx")
    case True
    then have a: "a = r" using h(3) i by simp
    have "j \<noteq> idx" using True h(1) by simp
    then have b: "assigned ! j = Some b" using h(4) by simp
    have "j \<in> set [0..<length assigned]" using j by simp
    from checkValid_sound[OF v this b] show ?thesis using True h(1) a by simp
  next
    case ni: False
    then have a: "assigned ! i = Some a" using h(3) by simp
    show ?thesis
    proof (cases "j = idx")
      case True
      then have b: "b = r" using h(4) j by simp
      have "i \<in> set [0..<length assigned]" using i by simp
      from checkValid_sound[OF v this a] show ?thesis using True h(1) b by simp
    next
      case False
      then have b: "assigned ! j = Some b" using h(4) by simp
      show ?thesis by (rule orderedRanges_D[OF o h(1) j a b])
    qed
  qed
qed

lemma resolveStep_cases:
  "resolveStep n (assigned, raws) (idx, m) =
     (if checkValid assigned idx (rangeOf m) [0..<n]
      then (assigned[idx := Some (rangeOf m)], raws)
      else (assigned,
            raws[idx := (raws ! idx)\<lparr>matched := False, startCueIdx := None, endCueIdx := None\<rparr>]))"
  by (simp add: resolveStep_def Let_def rangeOf_def)

lemma resolveStep_inv:
  assumes inv: "resolveInv n cn (assigned, raws) ((idx, m) # ms)"
  shows "resolveInv n cn (resolveStep n (assigned, raws) (idx, m)) ms"
proof -
  from inv have la: "length assigned = n" and lr: "length raws = n"
    and ord: "orderedRanges assigned"
    and rng: "\<forall>i<n. \<forall>r. assigned ! i = Some r \<longrightarrow> r = rangeOf (raws ! i)"
    and pend: "\<forall>i<n. matched (raws ! i) \<longrightarrow> assigned ! i \<noteq> None \<or> i \<in> fst ` set ((idx, m) # ms)"
    and cur: "\<forall>p\<in>set ((idx, m) # ms). fst p < n \<and> snd p = raws ! fst p \<and> assigned ! fst p = None"
    and dist: "distinct (map fst ((idx, m) # ms))"
    and wf: "\<forall>i<n. wfRaw cn (raws ! i)"
    unfolding resolveInv_def fst_conv snd_conv by blast+
  have idx: "idx < n" and m: "m = raws ! idx" and an: "assigned ! idx = None"
    using cur by auto
  have notin: "idx \<notin> fst ` set ms" using dist by auto
  have dist': "distinct (map fst ms)" using dist by simp
  have cur': "\<forall>p\<in>set ms. fst p < n \<and> snd p = raws ! fst p \<and> assigned ! fst p = None"
    using cur by simp
  show ?thesis
  proof (cases "checkValid assigned idx (rangeOf m) [0..<n]")
    case True
    let ?as = "assigned[idx := Some (rangeOf m)]"
    have eq: "resolveStep n (assigned, raws) (idx, m) = (?as, raws)"
      using True by (simp add: resolveStep_cases)
    have 1: "length ?as = n" using la by simp
    have 3: "orderedRanges ?as"
      using ord True idx la by (intro orderedRanges_update) simp_all
    have 4: "\<forall>i<n. \<forall>r. ?as ! i = Some r \<longrightarrow> r = rangeOf (raws ! i)"
    proof (intro allI impI)
      fix i r assume i: "i < n" and r: "?as ! i = Some r"
      show "r = rangeOf (raws ! i)"
      proof (cases "i = idx")
        case True
        then show ?thesis using r idx la m by simp
      next
        case False
        then show ?thesis using r rng i by simp
      qed
    qed
    have 5: "\<forall>i<n. matched (raws ! i) \<longrightarrow> ?as ! i \<noteq> None \<or> i \<in> fst ` set ms"
    proof (intro allI impI)
      fix i assume i: "i < n" and mi: "matched (raws ! i)"
      show "?as ! i \<noteq> None \<or> i \<in> fst ` set ms"
      proof (cases "i = idx")
        case True
        then show ?thesis using idx la by simp
      next
        case False
        then show ?thesis using pend i mi by auto
      qed
    qed
    have 6: "\<forall>p\<in>set ms. fst p < n \<and> snd p = raws ! fst p \<and> ?as ! fst p = None"
    proof
      fix p assume p: "p \<in> set ms"
      then have "fst p \<noteq> idx" using notin by auto
      then show "fst p < n \<and> snd p = raws ! fst p \<and> ?as ! fst p = None"
        using cur' p by simp
    qed
    show ?thesis
      unfolding eq resolveInv_def fst_conv snd_conv
      by (intro conjI) (rule 1, rule lr, rule 3, rule 4, rule 5, rule 6, rule dist', rule wf)
  next
    case False
    let ?rs = "raws[idx := (raws ! idx)\<lparr>matched := False, startCueIdx := None, endCueIdx := None\<rparr>]"
    have eq: "resolveStep n (assigned, raws) (idx, m) = (assigned, ?rs)"
      using False by (simp add: resolveStep_cases)
    have 2: "length ?rs = n" using lr by simp
    have other: "\<And>i. i \<noteq> idx \<Longrightarrow> ?rs ! i = raws ! i" by simp
    have 4: "\<forall>i<n. \<forall>r. assigned ! i = Some r \<longrightarrow> r = rangeOf (?rs ! i)"
    proof (intro allI impI)
      fix i r assume i: "i < n" and r: "assigned ! i = Some r"
      then have "i \<noteq> idx" using an by auto
      then show "r = rangeOf (?rs ! i)" using rng i r by simp
    qed
    have 5: "\<forall>i<n. matched (?rs ! i) \<longrightarrow> assigned ! i \<noteq> None \<or> i \<in> fst ` set ms"
    proof (intro allI impI)
      fix i assume i: "i < n" and mi: "matched (?rs ! i)"
      have ne: "i \<noteq> idx"
      proof
        assume "i = idx"
        then have "\<not> matched (?rs ! i)" using idx lr by simp
        with mi show False by simp
      qed
      then have "matched (raws ! i)" using mi by simp
      then show "assigned ! i \<noteq> None \<or> i \<in> fst ` set ms" using pend i ne by auto
    qed
    have 6: "\<forall>p\<in>set ms. fst p < n \<and> snd p = ?rs ! fst p \<and> assigned ! fst p = None"
    proof
      fix p assume p: "p \<in> set ms"
      then have "fst p \<noteq> idx" using notin by auto
      then show "fst p < n \<and> snd p = ?rs ! fst p \<and> assigned ! fst p = None"
        using cur' p by simp
    qed
    have 8: "\<forall>i<n. wfRaw cn (?rs ! i)"
    proof (intro allI impI)
      fix i assume i: "i < n"
      show "wfRaw cn (?rs ! i)"
      proof (cases "i = idx")
        case True
        then show ?thesis using idx lr by (simp add: wfRaw_def)
      next
        case False
        then show ?thesis using wf i by simp
      qed
    qed
    show ?thesis
      unfolding eq resolveInv_def fst_conv snd_conv
      by (intro conjI) (rule la, rule 2, rule ord, rule 4, rule 5, rule 6, rule dist', rule 8)
  qed
qed

lemma resolve_foldl_inv:
  "resolveInv n cn st ms \<Longrightarrow> resolveInv n cn (foldl (resolveStep n) st ms) []"
proof (induction ms arbitrary: st)
  case Nil
  then show ?case by simp
next
  case (Cons p ms)
  obtain assigned raws where st: "st = (assigned, raws)" by (cases st)
  obtain idx m where p: "p = (idx, m)" by (cases p)
  have "resolveInv n cn (resolveStep n st p) ms"
    using Cons.prems unfolding st p by (rule resolveStep_inv)
  then show ?case using Cons.IH by simp
qed

lemma matchedIdxs_set:
  "set (matchedIdxs raws) = {p. p \<in> set (zip [0..<length raws] raws) \<and> matched (snd p)}"
  by (auto simp: matchedIdxs_def)

lemma zip_upt_mem:
  "p \<in> set (zip [0..<length xs] xs) \<longleftrightarrow> fst p < length xs \<and> snd p = xs ! fst p"
proof
  assume "p \<in> set (zip [0..<length xs] xs)"
  then obtain k where "k < length xs" "p = ([0..<length xs] ! k, xs ! k)"
    by (auto simp: set_zip)
  then show "fst p < length xs \<and> snd p = xs ! fst p" by simp
next
  assume a: "fst p < length xs \<and> snd p = xs ! fst p"
  then have "p = ([0..<length xs] ! fst p, xs ! fst p)" by (cases p) simp
  then show "p \<in> set (zip [0..<length xs] xs)"
    using a unfolding set_zip by (auto intro!: exI[of _ "fst p"])
qed

lemma matchedIdxs_distinct: "distinct (map fst (matchedIdxs raws))"
proof -
  have d: "distinct (map fst (zip [0..<length raws] raws))" by simp
  have "distinct (map fst (filter (\<lambda>m. matched (snd m)) (zip [0..<length raws] raws)))"
    by (rule distinct_map_filter[OF d])
  then have "distinct (filter (\<lambda>m. matched (snd m)) (zip [0..<length raws] raws))"
    and "inj_on fst (set (filter (\<lambda>m. matched (snd m)) (zip [0..<length raws] raws)))"
    by (simp_all add: distinct_map)
  then show ?thesis
    unfolding matchedIdxs_def by (simp add: distinct_map)
qed

lemma resolveInv_init:
  assumes "\<forall>i<length raws. wfRaw cn (raws ! i)"
  shows "resolveInv (length raws) cn (replicate (length raws) None, raws) (matchedIdxs raws)"
proof -
  let ?n = "length raws"
  have 3: "orderedRanges (replicate ?n None)"
  proof (rule orderedRanges_I)
    fix i j and a b :: range
    assume "i < j" "j < length (replicate ?n None)" "replicate ?n None ! i = Some a"
    then show "rangeEnd a < rangeStart b" by simp
  qed
  have 4: "\<forall>i<?n. \<forall>r. replicate ?n None ! i = Some r \<longrightarrow> r = rangeOf (raws ! i)" by simp
  have 5: "\<forall>i<?n. matched (raws ! i)
             \<longrightarrow> replicate ?n None ! i \<noteq> None \<or> i \<in> fst ` set (matchedIdxs raws)"
  proof (intro allI impI)
    fix i assume i: "i < ?n" and m: "matched (raws ! i)"
    have "(i, raws ! i) \<in> set (zip [0..<?n] raws)"
      using i zip_upt_mem[of "(i, raws ! i)" raws] by simp
    then have "(i, raws ! i) \<in> set (matchedIdxs raws)"
      using m unfolding matchedIdxs_set by simp
    then have "i \<in> fst ` set (matchedIdxs raws)" by (rule rev_image_eqI) simp
    then show "replicate ?n None ! i \<noteq> None \<or> i \<in> fst ` set (matchedIdxs raws)" by simp
  qed
  have 6: "\<forall>p\<in>set (matchedIdxs raws). fst p < ?n \<and> snd p = raws ! fst p
             \<and> replicate ?n None ! fst p = None"
  proof
    fix p assume "p \<in> set (matchedIdxs raws)"
    then have "p \<in> set (zip [0..<?n] raws)" unfolding matchedIdxs_set by simp
    then have "fst p < ?n \<and> snd p = raws ! fst p" by (simp only: zip_upt_mem)
    then show "fst p < ?n \<and> snd p = raws ! fst p \<and> replicate ?n None ! fst p = None"
      by simp
  qed
  have 1: "length (replicate ?n (None :: range option)) = ?n" by simp
  show ?thesis
    unfolding resolveInv_def fst_conv snd_conv
    by (intro conjI) (rule 1, rule refl, rule 3, rule 4, rule 5, rule 6,
        rule matchedIdxs_distinct, rule assms)
qed

lemma pass2_inv:
  assumes "length raws = n" "\<forall>i<n. wfRaw cn (raws ! i)"
  shows "resolveInv n cn (pass2 n raws) []"
proof -
  have "resolveInv (length raws) cn (pass2 (length raws) raws) []"
    unfolding pass2_def
    by (rule resolve_foldl_inv[OF resolveInv_init]) (use assms in simp)
  then show ?thesis using assms(1) by simp
qed

lemma pass2_ordered:
  assumes "length raws = n" "\<forall>i<n. wfRaw cn (raws ! i)"
    and "i < j" "j < n" "matched (snd (pass2 n raws) ! i)" "matched (snd (pass2 n raws) ! j)"
  shows "\<exists>s1 e1 s2 e2.
           startCueIdx (snd (pass2 n raws) ! i) = Some s1 \<and> endCueIdx (snd (pass2 n raws) ! i) = Some e1
         \<and> startCueIdx (snd (pass2 n raws) ! j) = Some s2 \<and> endCueIdx (snd (pass2 n raws) ! j) = Some e2
         \<and> s1 \<le> e1 \<and> e1 < s2 \<and> s2 \<le> e2 \<and> e2 < cn"
proof -
  let ?as = "fst (pass2 n raws)" and ?rs = "snd (pass2 n raws)"
  have inv: "resolveInv n cn (?as, ?rs) []" using pass2_inv[OF assms(1,2)] by simp
  have la: "length ?as = n" using inv by (simp add: resolveInv_def)
  have ord: "orderedRanges ?as" using inv by (simp add: resolveInv_def)
  have rng: "\<forall>i<n. \<forall>r. ?as ! i = Some r \<longrightarrow> r = rangeOf (?rs ! i)"
    using inv by (simp add: resolveInv_def)
  have pend: "\<forall>i<n. matched (?rs ! i) \<longrightarrow> ?as ! i \<noteq> None"
    using inv by (simp add: resolveInv_def)
  have wf: "\<forall>i<n. wfRaw cn (?rs ! i)" using inv by (simp add: resolveInv_def)
  have i: "i < n" using assms(3,4) by simp
  have "?as ! i \<noteq> None" using pend i assms(5) by simp
  then obtain ri where ri: "?as ! i = Some ri" by blast
  then have ai: "?as ! i = Some (rangeOf (?rs ! i))" using rng i by simp
  have "?as ! j \<noteq> None" using pend assms(4,6) by simp
  then obtain rj where rj: "?as ! j = Some rj" by blast
  then have aj: "?as ! j = Some (rangeOf (?rs ! j))" using rng assms(4) by simp
  have lt: "rangeEnd (rangeOf (?rs ! i)) < rangeStart (rangeOf (?rs ! j))"
    using orderedRanges_D[OF ord assms(3) _ ai aj] la assms(4) by simp
  have "wfRaw cn (?rs ! i)" using wf i by simp
  then obtain s1 e1 where
    1: "startCueIdx (?rs ! i) = Some s1" "endCueIdx (?rs ! i) = Some e1" "s1 \<le> e1"
    using assms(5) unfolding wfRaw_def by auto
  have "wfRaw cn (?rs ! j)" using wf assms(4) by simp
  then obtain s2 e2 where
    2: "startCueIdx (?rs ! j) = Some s2" "endCueIdx (?rs ! j) = Some e2" "s2 \<le> e2" "e2 < cn"
    using assms(6) unfolding wfRaw_def by auto
  have "e1 < s2" using lt 1 2 by (simp add: rangeOf_def idxNumber_def)
  then show ?thesis using 1 2 by simp
qed

lemma segStep_cases:
  "(segmentMatch.startTime (ms ! i) \<noteq> None \<and> segStep ms i = ms)
   \<or> (segmentMatch.startTime (ms ! i) = None \<and> (\<exists>a b. segStep ms i = setTimes ms i a b))"
proof (cases "segmentMatch.startTime (ms ! i) = None")
  case False
  then show ?thesis by (simp add: segStep_def)
next
  case True
  have "\<exists>a b. segStep ms i = setTimes ms i a b"
    unfolding segStep_def Let_def using True
    by (simp only: not_None_eq if_False split: if_split) blast
  then show ?thesis using True by blast
qed

lemma setTimes_length: "length (setTimes ms i a b) = length ms"
  by (simp add: setTimes_def)

lemma setTimes_nth:
  "j < length ms \<Longrightarrow> setTimes ms i a b ! j
     = (if j = i then (ms ! i)\<lparr>segmentMatch.startTime := Some a, segmentMatch.endTime := Some b\<rparr>
        else ms ! j)"
  by (simp add: setTimes_def)

lemma segStep_length: "length (segStep ms i) = length ms"
  using segStep_cases[of ms i] by (auto simp: setTimes_length)

lemma segStep_rawPart:
  "j < length ms \<Longrightarrow> rawPart (segStep ms i ! j) = rawPart (ms ! j)"
  using segStep_cases[of ms i] by (cases "j = i") (auto simp: setTimes_nth rawPart_def)

lemma segStep_paired:
  "j < length ms \<Longrightarrow> pairedTimes (ms ! j) \<Longrightarrow> pairedTimes (segStep ms i ! j)"
  using segStep_cases[of ms i] by (cases "j = i") (auto simp: setTimes_nth pairedTimes_def)

lemma segStep_filled:
  "i < length ms \<Longrightarrow> segmentMatch.startTime (segStep ms i ! i) \<noteq> None"
  using segStep_cases[of ms i] by (auto simp: setTimes_nth)

lemma segStep_keeps:
  "j < length ms \<Longrightarrow> segmentMatch.startTime (ms ! j) \<noteq> None
     \<Longrightarrow> segmentMatch.startTime (segStep ms i ! j) \<noteq> None"
  using segStep_cases[of ms i] by (cases "j = i") (auto simp: setTimes_nth)

lemma segLoop_Suc: "foldl segStep ms [0..<Suc k] = segStep (foldl segStep ms [0..<k]) k"
  by simp

lemma segLoop_length: "length (foldl segStep ms [0..<k]) = length ms"
  by (induction k) (simp_all add: segStep_length)

lemma segLoop_rawPart:
  "j < length ms \<Longrightarrow> rawPart (foldl segStep ms [0..<k] ! j) = rawPart (ms ! j)"
proof (induction k)
  case 0
  then show ?case by simp
next
  case (Suc k)
  have "j < length (foldl segStep ms [0..<k])" using Suc.prems by (simp add: segLoop_length)
  then show ?case using Suc unfolding segLoop_Suc by (simp add: segStep_rawPart)
qed

lemma segLoop_paired:
  "j < length ms \<Longrightarrow> pairedTimes (ms ! j) \<Longrightarrow> pairedTimes (foldl segStep ms [0..<k] ! j)"
proof (induction k)
  case 0
  then show ?case by simp
next
  case (Suc k)
  have "j < length (foldl segStep ms [0..<k])" using Suc.prems by (simp add: segLoop_length)
  then show ?case using Suc unfolding segLoop_Suc by (simp add: segStep_paired)
qed

lemma segLoop_filled:
  "j < k \<Longrightarrow> j < length ms \<Longrightarrow> segmentMatch.startTime (foldl segStep ms [0..<k] ! j) \<noteq> None"
proof (induction k)
  case 0
  then show ?case by simp
next
  case (Suc k)
  have l: "j < length (foldl segStep ms [0..<k])" using Suc.prems by (simp add: segLoop_length)
  show ?case
  proof (cases "j = k")
    case True
    then show ?thesis unfolding segLoop_Suc using l by (simp add: segStep_filled)
  next
    case False
    then have "j < k" using Suc.prems by simp
    then have "segmentMatch.startTime (foldl segStep ms [0..<k] ! j) \<noteq> None"
      using Suc by simp
    then show ?thesis unfolding segLoop_Suc using l by (simp add: segStep_keeps)
  qed
qed

lemma interpolateSegmentTiming_populated:
  assumes "\<forall>m\<in>set ms. pairedTimes m" "j < length ms"
  shows "segmentMatch.startTime (interpolateSegmentTiming ms ! j) \<noteq> None
         \<and> segmentMatch.endTime (interpolateSegmentTiming ms ! j) \<noteq> None"
proof -
  have s: "segmentMatch.startTime (interpolateSegmentTiming ms ! j) \<noteq> None"
    unfolding interpolateSegmentTiming_def by (rule segLoop_filled[OF assms(2) assms(2)])
  have "pairedTimes (interpolateSegmentTiming ms ! j)"
    unfolding interpolateSegmentTiming_def using assms by (intro segLoop_paired) simp_all
  then show ?thesis using s by (simp add: pairedTimes_def)
qed

lemma pass2_length: "length raws = n \<Longrightarrow> (\<forall>i<n. wfRaw cn (raws ! i)) \<Longrightarrow> length (snd (pass2 n raws)) = n"
  using pass2_inv[of raws n cn] by (simp add: resolveInv_def)

lemma pass1_wf_nth: "\<forall>i<length segments. wfRaw (length cs) (pass1 cs segments ! i)"
  using pass1_wf[of cs segments] by (simp add: pass1_length)

lemma segmentMatches_eq:
  "segmentMatches (mapSrtToSegments cs segments)
     = interpolateSegmentTiming
         (map (withTimes cs) (snd (pass2 (length segments) (pass1 cs segments))))"
  by (simp add: mapSrtToSegments_def Let_def)

lemma rawPart_withTimes: "rawPart (withTimes cs m) = (matched m, startCueIdx m, endCueIdx m)"
  by (simp add: rawPart_def withTimes_def)

lemma segmentMatches_length:
  "length (segmentMatches (mapSrtToSegments cs segments)) = length segments"
  unfolding segmentMatches_eq interpolateSegmentTiming_def
  by (simp add: segLoop_length pass2_length[OF pass1_length pass1_wf_nth])

lemma segmentMatches_rawPart:
  assumes "k < length segments"
  shows "rawPart (segmentMatches (mapSrtToSegments cs segments) ! k)
         = (matched (snd (pass2 (length segments) (pass1 cs segments)) ! k),
            startCueIdx (snd (pass2 (length segments) (pass1 cs segments)) ! k),
            endCueIdx (snd (pass2 (length segments) (pass1 cs segments)) ! k))"
proof -
  let ?rs = "snd (pass2 (length segments) (pass1 cs segments))"
  have l: "length ?rs = length segments" by (rule pass2_length[OF pass1_length pass1_wf_nth])
  have "rawPart (interpolateSegmentTiming (map (withTimes cs) ?rs) ! k)
          = rawPart (map (withTimes cs) ?rs ! k)"
    unfolding interpolateSegmentTiming_def using assms l by (intro segLoop_rawPart) simp
  then show ?thesis using assms l by (simp add: segmentMatches_eq rawPart_withTimes)
qed

text \<open>
  \<^bold>\<open>C2\<close>. For every cue list and segment list, any two segments that are still matched after
  the conflict resolution of pass 2, the first earlier in input order than the second, own
  cue ranges \<open>s1 .. e1\<close> and \<open>s2 .. e2\<close> inside the cue list such that the first range ends
  strictly before the second starts; so the two ranges do not intersect and the order of the
  ranges is the order of the segments. (\<open>interpolateSegmentTiming\<close> leaves these fields as
  pass 2 set them.)
\<close>

theorem segments_non_overlap:
  assumes "i < j" and "j < length (segmentMatches (mapSrtToSegments cs segments))"
    and "matched (segmentMatches (mapSrtToSegments cs segments) ! i)"
    and "matched (segmentMatches (mapSrtToSegments cs segments) ! j)"
  shows "\<exists>s1 e1 s2 e2.
           startCueIdx (segmentMatches (mapSrtToSegments cs segments) ! i) = Some s1
         \<and> endCueIdx (segmentMatches (mapSrtToSegments cs segments) ! i) = Some e1
         \<and> startCueIdx (segmentMatches (mapSrtToSegments cs segments) ! j) = Some s2
         \<and> endCueIdx (segmentMatches (mapSrtToSegments cs segments) ! j) = Some e2
         \<and> s1 \<le> e1 \<and> e1 < s2 \<and> s2 \<le> e2 \<and> e2 < length cs
         \<and> {s1..e1} \<inter> {s2..e2} = {}"
proof -
  let ?sms = "segmentMatches (mapSrtToSegments cs segments)"
  let ?rs = "snd (pass2 (length segments) (pass1 cs segments))"
  have j: "j < length segments" using assms(2) by (simp add: segmentMatches_length)
  then have i: "i < length segments" using assms(1) by simp
  have ri: "rawPart (?sms ! i) = (matched (?rs ! i), startCueIdx (?rs ! i), endCueIdx (?rs ! i))"
    by (rule segmentMatches_rawPart[OF i])
  have rj: "rawPart (?sms ! j) = (matched (?rs ! j), startCueIdx (?rs ! j), endCueIdx (?rs ! j))"
    by (rule segmentMatches_rawPart[OF j])
  have mi: "matched (?rs ! i)" using ri assms(3) by (simp add: rawPart_def)
  have mj: "matched (?rs ! j)" using rj assms(4) by (simp add: rawPart_def)
  from pass2_ordered[OF pass1_length pass1_wf_nth assms(1) j mi mj]
  obtain s1 e1 s2 e2 where
    r: "startCueIdx (?rs ! i) = Some s1" "endCueIdx (?rs ! i) = Some e1"
       "startCueIdx (?rs ! j) = Some s2" "endCueIdx (?rs ! j) = Some e2"
       "s1 \<le> e1" "e1 < s2" "s2 \<le> e2" "e2 < length cs"
    by blast
  have d: "{s1..e1} \<inter> {s2..e2} = {}" using r(6) by auto
  have "startCueIdx (?sms ! i) = Some s1" "endCueIdx (?sms ! i) = Some e1"
       "startCueIdx (?sms ! j) = Some s2" "endCueIdx (?sms ! j) = Some e2"
    using ri rj r(1-4) by (simp_all add: rawPart_def)
  then show ?thesis using r(5-8) d by blast
qed

lemma wsegs2_result:
  "map (\<lambda>m. (matched m, startCueIdx m, endCueIdx m)) (segmentMatches (mapSrtToSegments wcues2 wsegs2))
     = [(True, Some 1, Some 1), (True, Some 2, Some 2), (False, None, None)]"
  by code_simp

theorem segments_non_overlap_witness:
  "map (\<lambda>m. (matched m, startCueIdx m, endCueIdx m)) (segmentMatches (mapSrtToSegments wcues2 wsegs2))
     = [(True, Some 1, Some 1), (True, Some 2, Some 2), (False, None, None)]
   \<and> (\<exists>s1 e1 s2 e2.
           startCueIdx (segmentMatches (mapSrtToSegments wcues2 wsegs2) ! 0) = Some s1
         \<and> endCueIdx (segmentMatches (mapSrtToSegments wcues2 wsegs2) ! 0) = Some e1
         \<and> startCueIdx (segmentMatches (mapSrtToSegments wcues2 wsegs2) ! 1) = Some s2
         \<and> endCueIdx (segmentMatches (mapSrtToSegments wcues2 wsegs2) ! 1) = Some e2
         \<and> s1 \<le> e1 \<and> e1 < s2 \<and> s2 \<le> e2 \<and> e2 < length wcues2
         \<and> {s1..e1} \<inter> {s2..e2} = {})"
proof -
  let ?sms = "segmentMatches (mapSrtToSegments wcues2 wsegs2)"
  have l: "length ?sms = 3" by (simp add: segmentMatches_length wsegs2_def)
  have r: "map rawPart ?sms = [(True, Some 1, Some 1), (True, Some 2, Some 2), (False, None, None)]"
    using wsegs2_result by (simp add: rawPart_def[abs_def])
  have "rawPart (?sms ! 0) = map rawPart ?sms ! 0" "rawPart (?sms ! 1) = map rawPart ?sms ! 1"
    using l by simp_all
  then have m0: "matched (?sms ! 0)" and m1: "matched (?sms ! 1)"
    unfolding r by (simp_all add: rawPart_def)
  have j: "1 < length ?sms" using l by simp
  show ?thesis
    using wsegs2_result segments_non_overlap[OF _ j m0 m1] by simp
qed

section \<open>Interpolation: completeness and order\<close>

lemma prevIdxOf_0: "prevIdxOf ts 0 = -1"
  by (simp add: prevIdxOf_def)

lemma prevIdxOf_Suc:
  "prevIdxOf ts (Suc i) = (if ts ! i \<noteq> Null then int i else prevIdxOf ts i)"
  by (simp add: prevIdxOf_def)

lemma prevIdxOf_cases:
  "(prevIdxOf ts i = -1 \<and> (\<forall>j<i. ts ! j = Null))
   \<or> (\<exists>p. prevIdxOf ts i = int p \<and> p < i \<and> ts ! p \<noteq> Null
            \<and> (\<forall>k. p < k \<and> k < i \<longrightarrow> ts ! k = Null))"
proof (induction i)
  case 0
  then show ?case by (simp add: prevIdxOf_0)
next
  case (Suc i)
  show ?case
  proof (cases "ts ! i \<noteq> Null")
    case True
    then have "prevIdxOf ts (Suc i) = int i \<and> i < Suc i \<and> ts ! i \<noteq> Null
                 \<and> (\<forall>k. i < k \<and> k < Suc i \<longrightarrow> ts ! k = Null)"
      by (auto simp: prevIdxOf_Suc)
    then show ?thesis by blast
  next
    case False
    then have e: "prevIdxOf ts (Suc i) = prevIdxOf ts i" and n: "ts ! i = Null"
      by (simp_all add: prevIdxOf_Suc)
    from Suc show ?thesis
    proof
      assume a: "prevIdxOf ts i = -1 \<and> (\<forall>j<i. ts ! j = Null)"
      then have "\<forall>j<Suc i. ts ! j = Null" using n by (auto simp: less_Suc_eq)
      then show ?thesis using a e by simp
    next
      assume "\<exists>p. prevIdxOf ts i = int p \<and> p < i \<and> ts ! p \<noteq> Null
                \<and> (\<forall>k. p < k \<and> k < i \<longrightarrow> ts ! k = Null)"
      then obtain p where p: "prevIdxOf ts i = int p" "p < i" "ts ! p \<noteq> Null"
        "\<forall>k. p < k \<and> k < i \<longrightarrow> ts ! k = Null" by blast
      have "\<forall>k. p < k \<and> k < Suc i \<longrightarrow> ts ! k = Null"
        using p(4) n by (auto simp: less_Suc_eq)
      then have "prevIdxOf ts (Suc i) = int p \<and> p < Suc i \<and> ts ! p \<noteq> Null
                 \<and> (\<forall>k. p < k \<and> k < Suc i \<longrightarrow> ts ! k = Null)"
        using p e by simp
      then show ?thesis by blast
    qed
  qed
qed

lemma find_upt_None: "List.find P [a..<b] = None \<longleftrightarrow> (\<forall>j. a \<le> j \<and> j < b \<longrightarrow> \<not> P j)"
  by (auto simp: find_None_iff)

lemma find_upt_Some:
  assumes "List.find P [a..<b] = Some q"
  shows "a \<le> q \<and> q < b \<and> P q \<and> (\<forall>k. a \<le> k \<and> k < q \<longrightarrow> \<not> P k)"
proof -
  from assms obtain i where i: "i < length [a..<b]" "P ([a..<b] ! i)" "q = [a..<b] ! i"
    "\<forall>j<i. \<not> P ([a..<b] ! j)"
    unfolding find_Some_iff by blast
  have ib: "i < b - a" using i(1) by simp
  then have q: "q = a + i" using i(3) by simp
  have "\<forall>k. a \<le> k \<and> k < q \<longrightarrow> \<not> P k"
  proof (intro allI impI)
    fix k assume k: "a \<le> k \<and> k < q"
    then have "k - a < i" using q by linarith
    then have "\<not> P ([a..<b] ! (k - a))" using i(4) by blast
    moreover have "a + (k - a) < b" using k q ib by linarith
    then have "[a..<b] ! (k - a) = a + (k - a)" by (rule nth_upt)
    then have "[a..<b] ! (k - a) = k" using k by simp
    ultimately show "\<not> P k" by simp
  qed
  then show ?thesis using q ib i(2) by simp
qed

lemma nextIdxOf_cases:
  "(nextIdxOf ts i = -1 \<and> (\<forall>j. i < j \<and> j < length ts \<longrightarrow> ts ! j = Null))
   \<or> (\<exists>q. nextIdxOf ts i = int q \<and> i < q \<and> q < length ts \<and> ts ! q \<noteq> Null
            \<and> (\<forall>k. i < k \<and> k < q \<longrightarrow> ts ! k = Null))"
proof (cases "List.find (\<lambda>j. ts ! j \<noteq> Null) [i + 1..<length ts]")
  case None
  then have "\<forall>j. i + 1 \<le> j \<and> j < length ts \<longrightarrow> \<not> (ts ! j \<noteq> Null)"
    by (simp only: find_upt_None)
  then have "\<forall>j. i < j \<and> j < length ts \<longrightarrow> ts ! j = Null" by auto
  then show ?thesis using None by (simp add: nextIdxOf_def)
next
  case (Some q)
  from find_upt_Some[OF Some]
  have "i + 1 \<le> q" "q < length ts" "ts ! q \<noteq> Null"
    "\<forall>k. i + 1 \<le> k \<and> k < q \<longrightarrow> \<not> (ts ! k \<noteq> Null)" by blast+
  then have "nextIdxOf ts i = int q \<and> i < q \<and> q < length ts \<and> ts ! q \<noteq> Null
            \<and> (\<forall>k. i < k \<and> k < q \<longrightarrow> ts ! k = Null)"
    using Some by (auto simp: nextIdxOf_def)
  then show ?thesis by blast
qed

lemma fraction_bounds:
  fixes d f :: rat
  assumes "0 \<le> d" "0 \<le> f" "f \<le> 1"
  shows "0 \<le> f * d \<and> f * d \<le> d"
  using assms by (simp add: mult_left_le_one_le)

lemma ratio_bounds:
  fixes a b :: int
  assumes "0 \<le> a" "a \<le> b" "0 < b"
  shows "0 \<le> (of_int a / of_int b :: rat) \<and> (of_int a / of_int b :: rat) \<le> 1"
  using assms by (simp add: divide_le_eq)

lemma between_bounds:
  fixes tp tn :: rat
  assumes "p < i" "i < q" "tp \<le> tn"
  shows "tp \<le> tp + (of_int (int i - int p) / of_int (int q - int p)) * (tn - tp)
       \<and> tp + (of_int (int i - int p) / of_int (int q - int p)) * (tn - tp) \<le> tn"
proof -
  have r: "0 \<le> (of_int (int i - int p) / of_int (int q - int p) :: rat)
           \<and> (of_int (int i - int p) / of_int (int q - int p) :: rat) \<le> 1"
    using assms(1,2) by (intro ratio_bounds) simp_all
  have "0 \<le> tn - tp" using assms(3) by simp
  from fraction_bounds[OF this] r
  have "0 \<le> (of_int (int i - int p) / of_int (int q - int p)) * (tn - tp)
        \<and> (of_int (int i - int p) / of_int (int q - int p)) * (tn - tp) \<le> tn - tp"
    by blast
  then show ?thesis by linarith
qed

lemma after_bounds:
  fixes tp ce :: rat
  assumes "p < i" "i < n" "tp \<le> ce"
  shows "tp \<le> tp + of_int (int i - int p) * ((ce - tp) / of_int (int n - 1 - int p))
       \<and> tp + of_int (int i - int p) * ((ce - tp) / of_int (int n - 1 - int p)) \<le> ce"
proof -
  have r: "0 \<le> (of_int (int i - int p) / of_int (int n - 1 - int p) :: rat)
           \<and> (of_int (int i - int p) / of_int (int n - 1 - int p) :: rat) \<le> 1"
    using assms(1,2) by (intro ratio_bounds) simp_all
  have "0 \<le> ce - tp" using assms(3) by simp
  from fraction_bounds[OF this] r
  have "0 \<le> (of_int (int i - int p) / of_int (int n - 1 - int p)) * (ce - tp)
        \<and> (of_int (int i - int p) / of_int (int n - 1 - int p)) * (ce - tp) \<le> ce - tp"
    by blast
  then have "0 \<le> of_int (int i - int p) * ((ce - tp) / of_int (int n - 1 - int p))
        \<and> of_int (int i - int p) * ((ce - tp) / of_int (int n - 1 - int p)) \<le> ce - tp"
    by simp
  then show ?thesis by linarith
qed

lemma before_bounds:
  fixes tn fl :: rat
  assumes "i < q" "fl \<le> tn"
  shows "fl \<le> max fl (tn - of_int (int q - int i) * ((tn - fl) / of_int (int q)))
       \<and> max fl (tn - of_int (int q - int i) * ((tn - fl) / of_int (int q))) \<le> tn"
proof -
  have r: "0 \<le> (of_int (int q - int i) / of_int (int q) :: rat)
           \<and> (of_int (int q - int i) / of_int (int q) :: rat) \<le> 1"
    using assms(1) by (intro ratio_bounds) simp_all
  have "0 \<le> tn - fl" using assms(2) by simp
  from fraction_bounds[OF this] r
  have nn: "0 \<le> (of_int (int q - int i) / of_int (int q)) * (tn - fl)" by blast
  have e: "of_int (int q - int i) * ((tn - fl) / of_int (int q))
        = (of_int (int q - int i) / of_int (int q)) * (tn - fl)"
    by simp
  have "0 \<le> of_int (int q - int i) * ((tn - fl) / of_int (int q))"
    unfolding e by (rule nn)
  then have "tn - of_int (int q - int i) * ((tn - fl) / of_int (int q)) \<le> tn" by linarith
  then show ?thesis using assms(2) by simp
qed

lemma numeric_nth:
  "numericCells ts \<Longrightarrow> p < length ts \<Longrightarrow> ts ! p \<noteq> Null \<Longrightarrow> \<exists>x. ts ! p = Num x"
  unfolding numericCells_def by (cases "ts ! p") (auto simp: in_set_conv_nth)

lemma sortedCells_D:
  "sortedCells ts \<Longrightarrow> i < j \<Longrightarrow> j < length ts \<Longrightarrow> ts ! i = Num a \<Longrightarrow> ts ! j = Num b \<Longrightarrow> a \<le> b"
  unfolding sortedCells_def by blast

lemma boundedCells_D:
  "boundedCells fl ce ts \<Longrightarrow> i < length ts \<Longrightarrow> ts ! i = Num a \<Longrightarrow> fl \<le> a \<and> a \<le> ce"
  unfolding boundedCells_def by blast

lemma below_prev:
  assumes s: "sortedCells ts" and p: "p < i" "i < length ts" "ts ! p = Num tp"
    and gap: "\<forall>k. p < k \<and> k < i \<longrightarrow> ts ! k = Null"
    and j: "j < i" "ts ! j = Num a"
  shows "a \<le> tp"
proof -
  have "\<not> (p < j)" using gap j by auto
  then have "j = p \<or> j < p" by linarith
  then show ?thesis
  proof
    assume "j = p"
    then show ?thesis using j(2) p(3) by simp
  next
    assume "j < p"
    then show ?thesis using sortedCells_D[OF s _ _ j(2) p(3)] p(1,2) by simp
  qed
qed

lemma above_next:
  assumes s: "sortedCells ts" and q: "i < q" "q < length ts" "ts ! q = Num tn"
    and gap: "\<forall>k. i < k \<and> k < q \<longrightarrow> ts ! k = Null"
    and j: "i < j" "j < length ts" "ts ! j = Num b"
  shows "tn \<le> b"
proof -
  have "\<not> (j < q)" using gap j by auto
  then have "j = q \<or> q < j" by linarith
  then show ?thesis
  proof
    assume "j = q"
    then show ?thesis using j(3) q(3) by simp
  next
    assume "q < j"
    then show ?thesis using sortedCells_D[OF s _ j(2) q(3) j(3)] by simp
  qed
qed

lemma interpStep_both:
  assumes "ts ! i = Null" "prevIdxOf ts i = int p" "nextIdxOf ts i = int q"
    "ts ! p = Num tp" "ts ! q = Num tn"
  shows "interpStep fl ce ts i
           = ts[i := Num (tp + (of_int (int i - int p) / of_int (int q - int p)) * (tn - tp))]"
  using assms by (simp add: interpStep_def Let_def betweenAnchors_def toNumber_def)

lemma interpStep_after:
  assumes "ts ! i = Null" "prevIdxOf ts i = int p" "nextIdxOf ts i = -1" "ts ! p = Num tp"
    "p < i" "i < length ts"
  shows "interpStep fl ce ts i
           = ts[i := Num (tp + of_int (int i - int p)
                          * ((ce - tp) / of_int (int (length ts) - 1 - int p)))]"
proof -
  have "int (length ts) - 1 - int p > 0" using assms(5,6) by linarith
  then show ?thesis
    using assms(1-4) by (simp add: interpStep_def Let_def afterLastAnchor_def toNumber_def)
qed

lemma interpStep_before:
  assumes "ts ! i = Null" "prevIdxOf ts i = -1" "nextIdxOf ts i = int q" "ts ! q = Num tn" "i < q"
  shows "interpStep fl ce ts i
           = ts[i := Num (max fl (tn - of_int (int q - int i) * ((tn - fl) / of_int (int q))))]"
proof -
  have "int q > 0" using assms(5) by linarith
  then show ?thesis
    using assms(1-4) by (simp add: interpStep_def Let_def beforeFirstAnchor_def toNumber_def)
qed

lemma hasAnchors_nth: "hasAnchors ts \<Longrightarrow> \<exists>k<length ts. ts ! k \<noteq> Null"
  unfolding hasAnchors_def by (metis in_set_conv_nth)

lemma interpStep_value:
  assumes num: "numericCells ts" and anc: "hasAnchors ts" and i: "i < length ts"
    and nul: "ts ! i = Null"
  shows "\<exists>v. interpStep fl ce ts i = ts[i := Num v]
           \<and> (sortedCells ts \<and> boundedCells fl ce ts \<longrightarrow>
                (\<forall>j a. j < i \<and> ts ! j = Num a \<longrightarrow> a \<le> v)
              \<and> (\<forall>j b. i < j \<and> j < length ts \<and> ts ! j = Num b \<longrightarrow> v \<le> b)
              \<and> fl \<le> v \<and> v \<le> ce)"
proof -
  from prevIdxOf_cases[of ts i] show ?thesis
  proof
    assume P: "prevIdxOf ts i = -1 \<and> (\<forall>j<i. ts ! j = Null)"
    from nextIdxOf_cases[of ts i] show ?thesis
    proof
      assume N: "nextIdxOf ts i = -1 \<and> (\<forall>j. i < j \<and> j < length ts \<longrightarrow> ts ! j = Null)"
      from hasAnchors_nth[OF anc] obtain k where k: "k < length ts" "ts ! k \<noteq> Null" by blast
      have "k \<noteq> i" using k(2) nul by auto
      then have "k < i \<or> i < k" by linarith
      then have "ts ! k = Null" using P N k(1) by blast
      with k(2) show ?thesis by simp
    next
      assume "\<exists>q. nextIdxOf ts i = int q \<and> i < q \<and> q < length ts \<and> ts ! q \<noteq> Null
                \<and> (\<forall>k. i < k \<and> k < q \<longrightarrow> ts ! k = Null)"
      then obtain q where q: "nextIdxOf ts i = int q" "i < q" "q < length ts" "ts ! q \<noteq> Null"
        "\<forall>k. i < k \<and> k < q \<longrightarrow> ts ! k = Null" by blast
      from numeric_nth[OF num q(3,4)] obtain tn where tn: "ts ! q = Num tn" by blast
      let ?v = "max fl (tn - of_int (int q - int i) * ((tn - fl) / of_int (int q)))"
      have eq: "interpStep fl ce ts i = ts[i := Num ?v]"
        using nul P q(1) tn q(2) by (intro interpStep_before) simp_all
      have rest: "sortedCells ts \<and> boundedCells fl ce ts \<longrightarrow>
                (\<forall>j a. j < i \<and> ts ! j = Num a \<longrightarrow> a \<le> ?v)
              \<and> (\<forall>j b. i < j \<and> j < length ts \<and> ts ! j = Num b \<longrightarrow> ?v \<le> b)
              \<and> fl \<le> ?v \<and> ?v \<le> ce"
      proof
        assume sb: "sortedCells ts \<and> boundedCells fl ce ts"
        then have s: "sortedCells ts" and b: "boundedCells fl ce ts" by simp_all
        have bt: "fl \<le> tn \<and> tn \<le> ce" by (rule boundedCells_D[OF b q(3) tn])
        then have vb: "fl \<le> ?v \<and> ?v \<le> tn" using q(2) by (intro before_bounds) simp_all
        have 1: "\<forall>j a. j < i \<and> ts ! j = Num a \<longrightarrow> a \<le> ?v" using P by auto
        have 2: "\<forall>j b. i < j \<and> j < length ts \<and> ts ! j = Num b \<longrightarrow> ?v \<le> b"
        proof (intro allI impI)
          fix j b assume j: "i < j \<and> j < length ts \<and> ts ! j = Num b"
          then have "tn \<le> b" using above_next[OF s q(2,3) tn q(5)] by blast
          then show "?v \<le> b" using vb by linarith
        qed
        have 3: "fl \<le> ?v" using vb by simp
        have 4: "?v \<le> ce" using vb bt by linarith
        show "(\<forall>j a. j < i \<and> ts ! j = Num a \<longrightarrow> a \<le> ?v)
              \<and> (\<forall>j b. i < j \<and> j < length ts \<and> ts ! j = Num b \<longrightarrow> ?v \<le> b)
              \<and> fl \<le> ?v \<and> ?v \<le> ce"
          by (intro conjI) (rule 1, rule 2, rule 3, rule 4)
      qed
      show ?thesis by (rule exI[of _ ?v]) (rule conjI[OF eq rest])
    qed
  next
    assume "\<exists>p. prevIdxOf ts i = int p \<and> p < i \<and> ts ! p \<noteq> Null
              \<and> (\<forall>k. p < k \<and> k < i \<longrightarrow> ts ! k = Null)"
    then obtain p where p: "prevIdxOf ts i = int p" "p < i" "ts ! p \<noteq> Null"
      "\<forall>k. p < k \<and> k < i \<longrightarrow> ts ! k = Null" by blast
    have pl: "p < length ts" using p(2) i by simp
    from numeric_nth[OF num pl p(3)] obtain tp where tp: "ts ! p = Num tp" by blast
    from nextIdxOf_cases[of ts i] show ?thesis
    proof
      assume N: "nextIdxOf ts i = -1 \<and> (\<forall>j. i < j \<and> j < length ts \<longrightarrow> ts ! j = Null)"
      let ?v = "tp + of_int (int i - int p) * ((ce - tp) / of_int (int (length ts) - 1 - int p))"
      have eq: "interpStep fl ce ts i = ts[i := Num ?v]"
        using nul p(1) N tp p(2) i by (intro interpStep_after) simp_all
      have rest: "sortedCells ts \<and> boundedCells fl ce ts \<longrightarrow>
                (\<forall>j a. j < i \<and> ts ! j = Num a \<longrightarrow> a \<le> ?v)
              \<and> (\<forall>j b. i < j \<and> j < length ts \<and> ts ! j = Num b \<longrightarrow> ?v \<le> b)
              \<and> fl \<le> ?v \<and> ?v \<le> ce"
      proof
        assume sb: "sortedCells ts \<and> boundedCells fl ce ts"
        then have s: "sortedCells ts" and b: "boundedCells fl ce ts" by simp_all
        have bt: "fl \<le> tp \<and> tp \<le> ce" by (rule boundedCells_D[OF b pl tp])
        then have vb: "tp \<le> ?v \<and> ?v \<le> ce" using p(2) i by (intro after_bounds) simp_all
        have 1: "\<forall>j a. j < i \<and> ts ! j = Num a \<longrightarrow> a \<le> ?v"
        proof (intro allI impI)
          fix j a assume j: "j < i \<and> ts ! j = Num a"
          then have "a \<le> tp" using below_prev[OF s p(2) i tp p(4)] by blast
          then show "a \<le> ?v" using vb by linarith
        qed
        have 2: "\<forall>j b. i < j \<and> j < length ts \<and> ts ! j = Num b \<longrightarrow> ?v \<le> b" using N by auto
        have 3: "fl \<le> ?v" using vb bt by linarith
        have 4: "?v \<le> ce" using vb by simp
        show "(\<forall>j a. j < i \<and> ts ! j = Num a \<longrightarrow> a \<le> ?v)
              \<and> (\<forall>j b. i < j \<and> j < length ts \<and> ts ! j = Num b \<longrightarrow> ?v \<le> b)
              \<and> fl \<le> ?v \<and> ?v \<le> ce"
          by (intro conjI) (rule 1, rule 2, rule 3, rule 4)
      qed
      show ?thesis by (rule exI[of _ ?v]) (rule conjI[OF eq rest])
    next
      assume "\<exists>q. nextIdxOf ts i = int q \<and> i < q \<and> q < length ts \<and> ts ! q \<noteq> Null
                \<and> (\<forall>k. i < k \<and> k < q \<longrightarrow> ts ! k = Null)"
      then obtain q where q: "nextIdxOf ts i = int q" "i < q" "q < length ts" "ts ! q \<noteq> Null"
        "\<forall>k. i < k \<and> k < q \<longrightarrow> ts ! k = Null" by blast
      from numeric_nth[OF num q(3,4)] obtain tn where tn: "ts ! q = Num tn" by blast
      let ?v = "tp + (of_int (int i - int p) / of_int (int q - int p)) * (tn - tp)"
      have eq: "interpStep fl ce ts i = ts[i := Num ?v]"
        using nul p(1) q(1) tp tn by (rule interpStep_both)
      have rest: "sortedCells ts \<and> boundedCells fl ce ts \<longrightarrow>
                (\<forall>j a. j < i \<and> ts ! j = Num a \<longrightarrow> a \<le> ?v)
              \<and> (\<forall>j b. i < j \<and> j < length ts \<and> ts ! j = Num b \<longrightarrow> ?v \<le> b)
              \<and> fl \<le> ?v \<and> ?v \<le> ce"
      proof
        assume sb: "sortedCells ts \<and> boundedCells fl ce ts"
        then have s: "sortedCells ts" and b: "boundedCells fl ce ts" by simp_all
        have bp: "fl \<le> tp \<and> tp \<le> ce" by (rule boundedCells_D[OF b pl tp])
        have bn: "fl \<le> tn \<and> tn \<le> ce" by (rule boundedCells_D[OF b q(3) tn])
        have "p < q" using p(2) q(2) by simp
        then have "tp \<le> tn" using sortedCells_D[OF s _ q(3) tp tn] by simp
        then have vb: "tp \<le> ?v \<and> ?v \<le> tn" using p(2) q(2) by (intro between_bounds) simp_all
        have 1: "\<forall>j a. j < i \<and> ts ! j = Num a \<longrightarrow> a \<le> ?v"
        proof (intro allI impI)
          fix j a assume j: "j < i \<and> ts ! j = Num a"
          then have "a \<le> tp" using below_prev[OF s p(2) i tp p(4)] by blast
          then show "a \<le> ?v" using vb by linarith
        qed
        have 2: "\<forall>j b. i < j \<and> j < length ts \<and> ts ! j = Num b \<longrightarrow> ?v \<le> b"
        proof (intro allI impI)
          fix j b assume j: "i < j \<and> j < length ts \<and> ts ! j = Num b"
          then have "tn \<le> b" using above_next[OF s q(2,3) tn q(5)] by blast
          then show "?v \<le> b" using vb by linarith
        qed
        have 3: "fl \<le> ?v" using vb bp by linarith
        have 4: "?v \<le> ce" using vb bn by linarith
        show "(\<forall>j a. j < i \<and> ts ! j = Num a \<longrightarrow> a \<le> ?v)
              \<and> (\<forall>j b. i < j \<and> j < length ts \<and> ts ! j = Num b \<longrightarrow> ?v \<le> b)
              \<and> fl \<le> ?v \<and> ?v \<le> ce"
          by (intro conjI) (rule 1, rule 2, rule 3, rule 4)
      qed
      show ?thesis by (rule exI[of _ ?v]) (rule conjI[OF eq rest])
    qed
  qed
qed

lemma numericCells_update: "numericCells ts \<Longrightarrow> numericCells (ts[i := Num v])"
  unfolding numericCells_def using set_update_subset_insert[of ts i "Num v"] by auto

lemma hasAnchors_update: "i < length ts \<Longrightarrow> hasAnchors (ts[i := Num v])"
  unfolding hasAnchors_def by (metis cell.distinct(3) set_update_memI)

lemma sortedCells_update:
  assumes s: "sortedCells ts" and i: "i < length ts"
    and lo: "\<forall>j a. j < i \<and> ts ! j = Num a \<longrightarrow> a \<le> v"
    and hi: "\<forall>j b. i < j \<and> j < length ts \<and> ts ! j = Num b \<longrightarrow> v \<le> b"
  shows "sortedCells (ts[i := Num v])"
  unfolding sortedCells_def
proof (intro allI impI)
  fix j k a b
  assume h: "j < k \<and> k < length (ts[i := Num v]) \<and> ts[i := Num v] ! j = Num a
              \<and> ts[i := Num v] ! k = Num b"
  then have jk: "j < k" and k: "k < length ts" and j: "j < length ts"
    and hj: "ts[i := Num v] ! j = Num a" and hk: "ts[i := Num v] ! k = Num b" by simp_all
  show "a \<le> b"
  proof (cases "j = i")
    case True
    then have "ts[i := Num v] ! j = Num v" using i by simp
    then have a: "a = v" using hj by simp
    have "k \<noteq> i" using True jk by simp
    then have "ts ! k = Num b" using hk by simp
    then have "v \<le> b" using hi True jk k by blast
    then show ?thesis using a by simp
  next
    case nj: False
    then have tj: "ts ! j = Num a" using hj by simp
    show ?thesis
    proof (cases "k = i")
      case True
      then have "ts[i := Num v] ! k = Num v" using i by simp
      then have b: "b = v" using hk by simp
      have "a \<le> v" using lo tj True jk by blast
      then show ?thesis using b by simp
    next
      case False
      then have "ts ! k = Num b" using hk by simp
      then show ?thesis using sortedCells_D[OF s jk k tj] by simp
    qed
  qed
qed

lemma boundedCells_update:
  assumes "boundedCells fl ce ts" "fl \<le> v" "v \<le> ce"
  shows "boundedCells fl ce (ts[i := Num v])"
  unfolding boundedCells_def
proof (intro allI impI)
  fix j a assume h: "j < length (ts[i := Num v]) \<and> ts[i := Num v] ! j = Num a"
  then have jl: "j < length ts" and hv: "ts[i := Num v] ! j = Num a" by simp_all
  show "fl \<le> a \<and> a \<le> ce"
  proof (cases "j = i")
    case True
    then have "ts[i := Num v] ! j = Num v" using jl by simp
    then have "a = v" using hv by simp
    then show ?thesis using assms(2,3) by simp
  next
    case False
    then have "ts ! j = Num a" using hv by simp
    then show ?thesis using boundedCells_D[OF assms(1) jl] by blast
  qed
qed

lemma interpStep_keeps:
  "ts ! j \<noteq> Null \<Longrightarrow> interpStep fl ce ts i ! j = ts ! j"
  by (cases "j = i") (simp_all add: interpStep_def Let_def)

lemma interpStep_inv:
  assumes num: "numericCells ts" and anc: "hasAnchors ts" and i: "i < length ts"
  shows "numericCells (interpStep fl ce ts i) \<and> hasAnchors (interpStep fl ce ts i)
         \<and> (\<exists>x. interpStep fl ce ts i ! i = Num x)
         \<and> (sortedCells ts \<and> boundedCells fl ce ts
               \<longrightarrow> sortedCells (interpStep fl ce ts i) \<and> boundedCells fl ce (interpStep fl ce ts i))"
proof (cases "ts ! i = Null")
  case False
  then have eq: "interpStep fl ce ts i = ts" by (simp add: interpStep_def)
  have "\<exists>x. ts ! i = Num x" by (rule numeric_nth[OF num i False])
  then show ?thesis unfolding eq using num anc by simp
next
  case True
  from interpStep_value[OF num anc i True, of fl ce] obtain v where
    eq: "interpStep fl ce ts i = ts[i := Num v]"
    and rest: "sortedCells ts \<and> boundedCells fl ce ts \<longrightarrow>
                (\<forall>j a. j < i \<and> ts ! j = Num a \<longrightarrow> a \<le> v)
              \<and> (\<forall>j b. i < j \<and> j < length ts \<and> ts ! j = Num b \<longrightarrow> v \<le> b)
              \<and> fl \<le> v \<and> v \<le> ce"
    by blast
  have 1: "numericCells (ts[i := Num v])" by (rule numericCells_update[OF num])
  have 2: "hasAnchors (ts[i := Num v])" by (rule hasAnchors_update[OF i])
  have 3: "\<exists>x. ts[i := Num v] ! i = Num x" using i by simp
  have 4: "sortedCells ts \<and> boundedCells fl ce ts
               \<longrightarrow> sortedCells (ts[i := Num v]) \<and> boundedCells fl ce (ts[i := Num v])"
  proof
    assume sb: "sortedCells ts \<and> boundedCells fl ce ts"
    with rest have r: "\<forall>j a. j < i \<and> ts ! j = Num a \<longrightarrow> a \<le> v"
      "\<forall>j b. i < j \<and> j < length ts \<and> ts ! j = Num b \<longrightarrow> v \<le> b" "fl \<le> v" "v \<le> ce"
      by simp_all
    have "sortedCells (ts[i := Num v])"
      using sb i r(1,2) by (intro sortedCells_update) simp_all
    moreover have "boundedCells fl ce (ts[i := Num v])"
      using sb r(3,4) by (intro boundedCells_update) simp_all
    ultimately show "sortedCells (ts[i := Num v]) \<and> boundedCells fl ce (ts[i := Num v])" by simp
  qed
  show ?thesis unfolding eq by (intro conjI) (rule 1, rule 2, rule 3, rule 4)
qed

lemma interpLoop_Suc:
  "foldl (interpStep fl ce) ts [0..<Suc k] = interpStep fl ce (foldl (interpStep fl ce) ts [0..<k]) k"
  by simp

lemma interpLoop_inv:
  assumes num: "numericCells ts" and anc: "hasAnchors ts" and k: "k \<le> length ts"
  shows "numericCells (foldl (interpStep fl ce) ts [0..<k])
         \<and> hasAnchors (foldl (interpStep fl ce) ts [0..<k])
         \<and> (\<forall>j<k. \<exists>x. foldl (interpStep fl ce) ts [0..<k] ! j = Num x)
         \<and> (sortedCells ts \<and> boundedCells fl ce ts
               \<longrightarrow> sortedCells (foldl (interpStep fl ce) ts [0..<k])
                   \<and> boundedCells fl ce (foldl (interpStep fl ce) ts [0..<k]))"
  using k
proof (induction k)
  case 0
  then show ?case using num anc by simp
next
  case (Suc k)
  let ?t = "foldl (interpStep fl ce) ts [0..<k]"
  have ih: "numericCells ?t" "hasAnchors ?t" "\<forall>j<k. \<exists>x. ?t ! j = Num x"
    "sortedCells ts \<and> boundedCells fl ce ts \<longrightarrow> sortedCells ?t \<and> boundedCells fl ce ?t"
    using Suc by simp_all
  have kl: "k < length ?t" using Suc.prems by (simp add: interp_foldl_length)
  from interpStep_inv[OF ih(1,2) kl, of fl ce]
  have st: "numericCells (interpStep fl ce ?t k)" "hasAnchors (interpStep fl ce ?t k)"
    "\<exists>x. interpStep fl ce ?t k ! k = Num x"
    "sortedCells ?t \<and> boundedCells fl ce ?t
       \<longrightarrow> sortedCells (interpStep fl ce ?t k) \<and> boundedCells fl ce (interpStep fl ce ?t k)"
    by simp_all
  have 3: "\<forall>j<Suc k. \<exists>x. interpStep fl ce ?t k ! j = Num x"
  proof (intro allI impI)
    fix j assume j: "j < Suc k"
    show "\<exists>x. interpStep fl ce ?t k ! j = Num x"
    proof (cases "j = k")
      case True
      then show ?thesis using st(3) by simp
    next
      case False
      then have "j < k" using j by simp
      then obtain x where x: "?t ! j = Num x" using ih(3) by blast
      then have "interpStep fl ce ?t k ! j = ?t ! j" by (intro interpStep_keeps) simp
      then show ?thesis using x by simp
    qed
  qed
  have 4: "sortedCells ts \<and> boundedCells fl ce ts
             \<longrightarrow> sortedCells (interpStep fl ce ?t k) \<and> boundedCells fl ce (interpStep fl ce ?t k)"
    using ih(4) st(4) by blast
  show ?case
    unfolding interpLoop_Suc by (intro conjI) (rule st(1), rule st(2), rule 3, rule 4)
qed

lemma anchorCell_wf:
  "wfEntry cs i m \<Longrightarrow> anchorCell m = (case time m of None \<Rightarrow> Null | Some t \<Rightarrow> Num t)"
  by (auto simp: wfEntry_def anchorCell_def ofNumber_def split: option.splits)

lemma fillMatched_nth:
  assumes "wfMapping cs mp" "i < length mp"
  shows "fillMatched mp ! i = (case time (mp ! i) of None \<Rightarrow> Null | Some t \<Rightarrow> Num t)"
proof -
  have "fillMatched mp ! i = anchorCell (mp ! i)"
    using assms by (simp add: fillMatched_wf[OF wfMapping_beatIdx])
  moreover have "wfEntry cs i (mp ! i)" using assms by (simp add: wfMapping_def)
  ultimately show ?thesis using anchorCell_wf by simp
qed

lemma fillMatched_length_wf: "wfMapping cs mp \<Longrightarrow> length (fillMatched mp) = length mp"
  by (simp add: fillMatched_wf[OF wfMapping_beatIdx])

lemma fillMatched_numeric:
  assumes "wfMapping cs mp"
  shows "numericCells (fillMatched mp)"
  unfolding numericCells_def
proof
  fix c assume "c \<in> set (fillMatched mp)"
  then obtain i where i: "i < length (fillMatched mp)" "c = fillMatched mp ! i"
    by (metis in_set_conv_nth)
  then have "i < length mp" using fillMatched_length_wf[OF assms] by simp
  then have "c = (case time (mp ! i) of None \<Rightarrow> Null | Some t \<Rightarrow> Num t)"
    using fillMatched_nth[OF assms] i(2) by simp
  then show "c \<noteq> NotNumber" by (simp split: option.splits)
qed

lemma fillMatched_sorted:
  assumes wf: "wfMapping cs mp"
    and h: "\<forall>i j a b. i < j \<and> j < length mp \<and> time (mp ! i) = Some a \<and> time (mp ! j) = Some b
              \<longrightarrow> a \<le> b"
  shows "sortedCells (fillMatched mp)"
  unfolding sortedCells_def
proof (intro allI impI)
  fix i j a b
  assume a: "i < j \<and> j < length (fillMatched mp) \<and> fillMatched mp ! i = Num a
              \<and> fillMatched mp ! j = Num b"
  then have j: "j < length mp" and i: "i < length mp"
    using fillMatched_length_wf[OF wf] by simp_all
  have "time (mp ! i) = Some a"
    using a fillMatched_nth[OF wf i] by (simp split: option.splits)
  moreover have "time (mp ! j) = Some b"
    using a fillMatched_nth[OF wf j] by (simp split: option.splits)
  ultimately show "a \<le> b" using h a j by blast
qed

lemma fillMatched_bounded:
  assumes wf: "wfMapping cs mp"
    and h: "\<forall>i a. i < length mp \<and> time (mp ! i) = Some a \<longrightarrow> fl \<le> a \<and> a \<le> ce"
  shows "boundedCells fl ce (fillMatched mp)"
  unfolding boundedCells_def
proof (intro allI impI)
  fix i a
  assume a: "i < length (fillMatched mp) \<and> fillMatched mp ! i = Num a"
  then have i: "i < length mp" using fillMatched_length_wf[OF wf] by simp
  have "time (mp ! i) = Some a"
    using a fillMatched_nth[OF wf i] by (simp split: option.splits)
  then show "fl \<le> a \<and> a \<le> ce" using h i by blast
qed

lemma roundMs_mono:
  "a \<le> b \<Longrightarrow> (of_int (mathRound (a * 1000)) / 1000 :: rat) \<le> of_int (mathRound (b * 1000)) / 1000"
proof -
  assume "a \<le> b"
  then have "mathRound (a * 1000) \<le> mathRound (b * 1000)"
    unfolding mathRound_def by (intro floor_mono) simp
  then show ?thesis by (simp add: divide_right_mono)
qed

lemma evenTime_mono:
  assumes "fl \<le> ce" "i \<le> j"
  shows "evenTime fl ce n i \<le> evenTime fl ce n j"
proof (cases "n = 1")
  case True
  then show ?thesis by (simp add: evenTime_def)
next
  case False
  have "(of_nat i :: rat) / of_nat (n - 1) \<le> of_nat j / of_nat (n - 1)"
    using assms(2) by (intro divide_right_mono) simp_all
  moreover have "0 \<le> ce - fl" using assms(1) by simp
  ultimately have "(of_nat i / of_nat (n - 1)) * (ce - fl) \<le> (of_nat j / of_nat (n - 1)) * (ce - fl)"
    by (rule mult_right_mono)
  then show ?thesis using False by (simp add: evenTime_def)
qed

lemma interpolateMissing_no_anchor:
  assumes "\<not> hasAnchors (fillMatched mp)"
  shows "interpolateMissing mp cs segStart segEnd
         = map (\<lambda>i. Num (of_int (mathRound (evenTime (floorTimeOf cs segStart)
                   (ceilTimeOf mp cs segEnd) (length (fillMatched mp)) i * 1000)) / 1000))
             [0..<length (fillMatched mp)]"
  using assms by (simp add: interpolateMissing_def Let_def roundMs_Num o_def)

lemma interpolateMissing_anchor:
  assumes "hasAnchors (fillMatched mp)"
  shows "interpolateMissing mp cs segStart segEnd
         = map roundMs (foldl (interpStep (floorTimeOf cs segStart) (ceilTimeOf mp cs segEnd))
                          (fillMatched mp) [0..<length (fillMatched mp)])"
  using assms by (simp add: interpolateMissing_def Let_def)

lemma interpolateMissing_complete:
  assumes wf: "wfMapping cs mp"
  shows "(\<forall>t\<in>set (interpolateMissing mp cs segStart segEnd). \<exists>x. t = Num x)
       \<and> ((\<forall>i j a b. i < j \<and> j < length mp \<and> time (mp ! i) = Some a \<and> time (mp ! j) = Some b
              \<longrightarrow> a \<le> b)
          \<and> (\<forall>i a. i < length mp \<and> time (mp ! i) = Some a
              \<longrightarrow> floorTimeOf cs segStart \<le> a \<and> a \<le> ceilTimeOf mp cs segEnd)
          \<and> floorTimeOf cs segStart \<le> ceilTimeOf mp cs segEnd
          \<longrightarrow> nonDecreasing (interpolateMissing mp cs segStart segEnd))"
proof (cases "hasAnchors (fillMatched mp)")
  case False
  let ?fl = "floorTimeOf cs segStart" and ?ce = "ceilTimeOf mp cs segEnd"
  let ?n = "length (fillMatched mp)"
  let ?f = "\<lambda>i. Num (of_int (mathRound (evenTime ?fl ?ce ?n i * 1000)) / 1000)"
  have eq: "interpolateMissing mp cs segStart segEnd = map ?f [0..<?n]"
    by (rule interpolateMissing_no_anchor[OF False])
  have 1: "\<forall>t\<in>set (map ?f [0..<?n]). \<exists>x. t = Num x"
  proof
    fix t assume "t \<in> set (map ?f [0..<?n])"
    then obtain i where "t = ?f i" by auto
    then show "\<exists>x. t = Num x" by blast
  qed
  have 2: "?fl \<le> ?ce \<longrightarrow> nonDecreasing (map ?f [0..<?n])"
  proof
    assume le: "?fl \<le> ?ce"
    show "nonDecreasing (map ?f [0..<?n])"
      unfolding nonDecreasing_def
    proof (intro allI impI)
      fix i j assume ij: "i \<le> j \<and> j < length (map ?f [0..<?n])"
      then have j: "j < ?n" and i: "i < ?n" by simp_all
      have "evenTime ?fl ?ce ?n i \<le> evenTime ?fl ?ce ?n j"
        using le ij by (intro evenTime_mono) simp_all
      then have le2: "(of_int (mathRound (evenTime ?fl ?ce ?n i * 1000)) / 1000 :: rat)
                   \<le> of_int (mathRound (evenTime ?fl ?ce ?n j * 1000)) / 1000"
        by (rule roundMs_mono)
      have mi: "map ?f [0..<?n] ! i = ?f i" using i by simp
      have mj: "map ?f [0..<?n] ! j = ?f j" using j by simp
      show "\<exists>a b. map ?f [0..<?n] ! i = Num a \<and> map ?f [0..<?n] ! j = Num b \<and> a \<le> b"
        by (intro exI conjI) (rule mi, rule mj, rule le2)
    qed
  qed
  show ?thesis unfolding eq using 1 2 by blast
next
  case True
  let ?fl = "floorTimeOf cs segStart" and ?ce = "ceilTimeOf mp cs segEnd"
  let ?ini = "fillMatched mp"
  let ?fin = "foldl (interpStep ?fl ?ce) ?ini [0..<length ?ini]"
  have eq: "interpolateMissing mp cs segStart segEnd = map roundMs ?fin"
    by (rule interpolateMissing_anchor[OF True])
  have num: "numericCells ?ini" by (rule fillMatched_numeric[OF wf])
  from interpLoop_inv[OF num True order_refl, of ?fl ?ce]
  have all: "\<forall>j<length ?ini. \<exists>x. ?fin ! j = Num x"
    and sb: "sortedCells ?ini \<and> boundedCells ?fl ?ce ?ini \<longrightarrow> sortedCells ?fin"
    by simp_all
  have len: "length ?fin = length ?ini" by (rule interp_foldl_length)
  have 1: "\<forall>t\<in>set (map roundMs ?fin). \<exists>x. t = Num x"
  proof
    fix c assume "c \<in> set (map roundMs ?fin)"
    then obtain j where j: "j < length ?fin" "c = roundMs (?fin ! j)"
      by (auto simp: in_set_conv_nth)
    then obtain x where "?fin ! j = Num x" using all len by auto
    then have "c = Num (of_int (mathRound (x * 1000)) / 1000)"
      using j(2) by (simp add: roundMs_Num)
    then show "\<exists>x. c = Num x" by blast
  qed
  have 2: "(\<forall>i j a b. i < j \<and> j < length mp \<and> time (mp ! i) = Some a \<and> time (mp ! j) = Some b
              \<longrightarrow> a \<le> b)
          \<and> (\<forall>i a. i < length mp \<and> time (mp ! i) = Some a \<longrightarrow> ?fl \<le> a \<and> a \<le> ?ce)
          \<and> ?fl \<le> ?ce
          \<longrightarrow> nonDecreasing (map roundMs ?fin)"
  proof
    assume h: "(\<forall>i j a b. i < j \<and> j < length mp \<and> time (mp ! i) = Some a \<and> time (mp ! j) = Some b
              \<longrightarrow> a \<le> b)
          \<and> (\<forall>i a. i < length mp \<and> time (mp ! i) = Some a \<longrightarrow> ?fl \<le> a \<and> a \<le> ?ce)
          \<and> ?fl \<le> ?ce"
    have s0: "sortedCells ?ini" using h by (intro fillMatched_sorted[OF wf]) blast
    have b0: "boundedCells ?fl ?ce ?ini" using h by (intro fillMatched_bounded[OF wf]) blast
    have s: "sortedCells ?fin" using sb s0 b0 by blast
    show "nonDecreasing (map roundMs ?fin)"
      unfolding nonDecreasing_def
    proof (intro allI impI)
      fix i j assume ij: "i \<le> j \<and> j < length (map roundMs ?fin)"
      then have j: "j < length ?fin" and i: "i < length ?fin" by simp_all
      obtain a where a: "?fin ! i = Num a" using all i len by auto
      obtain b where b: "?fin ! j = Num b" using all j len by auto
      have "a \<le> b"
      proof (cases "i = j")
        case True
        then show ?thesis using a b by simp
      next
        case False
        then have "i < j" using ij by simp
        then show ?thesis by (rule sortedCells_D[OF s _ j a b])
      qed
      then have le2: "(of_int (mathRound (a * 1000)) / 1000 :: rat)
                        \<le> of_int (mathRound (b * 1000)) / 1000"
        by (rule roundMs_mono)
      have mi: "map roundMs ?fin ! i = Num (of_int (mathRound (a * 1000)) / 1000)"
        using i a by (simp add: roundMs_Num)
      have mj: "map roundMs ?fin ! j = Num (of_int (mathRound (b * 1000)) / 1000)"
        using j b by (simp add: roundMs_Num)
      show "\<exists>a b. map roundMs ?fin ! i = Num a \<and> map roundMs ?fin ! j = Num b \<and> a \<le> b"
        by (intro exI conjI) (rule mi, rule mj, rule le2)
    qed
  qed
  show ?thesis unfolding eq using 1 2 by blast
qed

lemma pass2_wf:
  assumes "length raws = n" "\<forall>i<n. wfRaw cn (raws ! i)"
  shows "\<forall>i<n. wfRaw cn (snd (pass2 n raws) ! i)"
  using pass2_inv[OF assms] by (simp add: resolveInv_def)

lemma withTimes_paired: "wfRaw cn m \<Longrightarrow> pairedTimes (withTimes cs m)"
  by (auto simp: wfRaw_def pairedTimes_def withTimes_def split: if_splits)

lemma segmentMatches_populated:
  assumes "m \<in> set (segmentMatches (mapSrtToSegments cs segments))"
  shows "segmentMatch.startTime m \<noteq> None \<and> segmentMatch.endTime m \<noteq> None"
proof -
  let ?rs = "snd (pass2 (length segments) (pass1 cs segments))"
  let ?ms = "map (withTimes cs) ?rs"
  have l: "length ?rs = length segments" by (rule pass2_length[OF pass1_length pass1_wf_nth])
  have wf: "\<forall>i<length segments. wfRaw (length cs) (?rs ! i)"
    by (rule pass2_wf[OF pass1_length pass1_wf_nth])
  have p: "\<forall>x\<in>set ?ms. pairedTimes x"
  proof
    fix x assume "x \<in> set ?ms"
    then obtain i where "i < length ?rs" "x = withTimes cs (?rs ! i)"
      by (auto simp: in_set_conv_nth)
    then show "pairedTimes x" using wf l withTimes_paired by auto
  qed
  from assms obtain j where j: "j < length (interpolateSegmentTiming ?ms)"
    "m = interpolateSegmentTiming ?ms ! j"
    unfolding segmentMatches_eq by (metis in_set_conv_nth)
  have "j < length ?ms" using j(1) by (simp add: interpolateSegmentTiming_def segLoop_length)
  from interpolateSegmentTiming_populated[OF p this] show ?thesis using j(2) by simp
qed

text \<open>
  \<^bold>\<open>C3\<close>, as the code has it. For all cue lists, beat lists, beat types and bounds, every
  entry of the beat-time array that \<open>mapSrtToBeatsIntelligent\<close> returns (the result of
  \<open>interpolateMissing\<close> on the mapping the aligner built) is a number, and for all cue and
  segment lists every segment match that \<open>mapSrtToSegments\<close> returns has a start and an end
  time after \<open>interpolateSegmentTiming\<close>. The beat times are non-decreasing when the
  matched times are non-decreasing in beat order and lie between the floor and the ceiling
  that \<open>interpolateMissing\<close> uses, with the floor not above the ceiling: the code keeps the
  matched times as they are and spaces the beats after the last match towards the ceiling.
\<close>

theorem interpolation_complete:
  "(\<forall>t\<in>set (beatTimes (mapSrtToBeatsIntelligent cs beatTexts beatTypes segStart segEnd)).
      \<exists>x. t = Num x)
   \<and> (\<forall>m\<in>set (segmentMatches (mapSrtToSegments cs' segments)).
        segmentMatch.startTime m \<noteq> None \<and> segmentMatch.endTime m \<noteq> None)
   \<and> (\<forall>mp. beatResult.mapping (mapSrtToBeatsIntelligent cs beatTexts beatTypes segStart segEnd)
              = Some mp
            \<and> (\<forall>i j a b. i < j \<and> j < length mp \<and> time (mp ! i) = Some a \<and> time (mp ! j) = Some b
                  \<longrightarrow> a \<le> b)
            \<and> (\<forall>i a. i < length mp \<and> time (mp ! i) = Some a
                  \<longrightarrow> floorTimeOf cs segStart \<le> a \<and> a \<le> ceilTimeOf mp cs segEnd)
            \<and> floorTimeOf cs segStart \<le> ceilTimeOf mp cs segEnd
          \<longrightarrow> nonDecreasing
                (beatTimes (mapSrtToBeatsIntelligent cs beatTexts beatTypes segStart segEnd)))"
proof -
  let ?r = "mapSrtToBeatsIntelligent cs beatTexts beatTypes segStart segEnd"
  let ?mp = "snd (alignLoop cs beatTexts beatTypes (length beatTexts))"
  have wf: "wfMapping cs ?mp"
    using alignLoop_inv[of cs beatTexts beatTypes "length beatTexts"] by (simp add: alignInv_def)
  note im = interpolateMissing_complete[OF wf, of segStart segEnd]
  have 1: "\<forall>t\<in>set (beatTimes ?r). \<exists>x. t = Num x"
  proof (cases "beatTexts = []")
    case True
    then show ?thesis by (auto simp: mapSrtToBeatsIntelligent_def)
  next
    case False
    then have "beatTimes ?r = interpolateMissing ?mp cs segStart segEnd"
      by (simp add: mapSrtToBeatsIntelligent_def Let_def)
    then show ?thesis using im by simp
  qed
  have 2: "\<forall>m\<in>set (segmentMatches (mapSrtToSegments cs' segments)).
        segmentMatch.startTime m \<noteq> None \<and> segmentMatch.endTime m \<noteq> None"
    using segmentMatches_populated by blast
  have 3: "\<forall>mp. beatResult.mapping ?r = Some mp
            \<and> (\<forall>i j a b. i < j \<and> j < length mp \<and> time (mp ! i) = Some a \<and> time (mp ! j) = Some b
                  \<longrightarrow> a \<le> b)
            \<and> (\<forall>i a. i < length mp \<and> time (mp ! i) = Some a
                  \<longrightarrow> floorTimeOf cs segStart \<le> a \<and> a \<le> ceilTimeOf mp cs segEnd)
            \<and> floorTimeOf cs segStart \<le> ceilTimeOf mp cs segEnd
          \<longrightarrow> nonDecreasing (beatTimes ?r)"
  proof (intro allI impI)
    fix mp
    assume h: "beatResult.mapping ?r = Some mp
            \<and> (\<forall>i j a b. i < j \<and> j < length mp \<and> time (mp ! i) = Some a \<and> time (mp ! j) = Some b
                  \<longrightarrow> a \<le> b)
            \<and> (\<forall>i a. i < length mp \<and> time (mp ! i) = Some a
                  \<longrightarrow> floorTimeOf cs segStart \<le> a \<and> a \<le> ceilTimeOf mp cs segEnd)
            \<and> floorTimeOf cs segStart \<le> ceilTimeOf mp cs segEnd"
    then have m: "beatResult.mapping ?r = Some mp" by simp
    from mapping_Some[OF m] have ne: "beatTexts \<noteq> []" and mp: "mp = ?mp" by simp_all
    have bt: "beatTimes ?r = interpolateMissing ?mp cs segStart segEnd"
      using ne by (simp add: mapSrtToBeatsIntelligent_def Let_def)
    show "nonDecreasing (beatTimes ?r)"
      unfolding bt using im h unfolding mp by blast
  qed
  show ?thesis by (intro conjI) (rule 1, rule 2, rule 3)
qed

lemma wbeats3_times:
  "map time (snd (alignLoop wcues wbeats3 None 3)) = [Some 0, None, Some 6]"
  by code_simp

lemma wbeats3_beatTimes:
  "beatTimes (mapSrtToBeatsIntelligent wcues wbeats3 None None None) = [Num 0, Num 3, Num 6]"
  by code_simp

text \<open>The beat times are not non-decreasing for all inputs: with two cues whose start
  times are 5 and 2 (the parser does not sort the cues) the two matched beats get the times
  5 and 2.\<close>

theorem interpolation_counterexample:
  "beatTimes (mapSrtToBeatsIntelligent ucues [''apples'', ''bananas''] None None None)
     = [Num 5, Num 2]
   \<and> \<not> (5 :: rat) \<le> 2"
proof -
  have "beatTimes (mapSrtToBeatsIntelligent ucues [''apples'', ''bananas''] None None None)
     = [Num 5, Num 2]"
    by code_simp
  then show ?thesis by simp
qed

text \<open>The order also fails with cues in order when the ceiling lies below a matched time:
  the beat after the last match is placed at the ceiling.\<close>

lemma late_anchor_example:
  "beatTimes (mapSrtToBeatsIntelligent wcues [''Bananas'', ''Xyzzy123''] None (Some 0) (Some 1))
     = [Num 3, Num 1]"
  by code_simp

theorem interpolation_complete_witness:
  "beatTimes (mapSrtToBeatsIntelligent wcues wbeats3 None None None) = [Num 0, Num 3, Num 6]
   \<and> nonDecreasing (beatTimes (mapSrtToBeatsIntelligent wcues wbeats3 None None None))
   \<and> segmentMatch.startTime (segmentMatches (mapSrtToSegments wcues2 wsegs2) ! 2) \<noteq> None
   \<and> segmentMatch.endTime (segmentMatches (mapSrtToSegments wcues2 wsegs2) ! 2) \<noteq> None"
proof -
  let ?mp = "snd (alignLoop wcues wbeats3 None 3)"
  let ?r = "mapSrtToBeatsIntelligent wcues wbeats3 None None None"
  have lw: "length wbeats3 = 3" by (simp add: wbeats3_def)
  have m: "beatResult.mapping ?r = Some ?mp"
    by (simp add: mapSrtToBeatsIntelligent_def Let_def lw)
  have l: "length ?mp = 3" by (rule alignLoop_length)
  have t: "\<And>i. i < 3 \<Longrightarrow> time (?mp ! i) = [Some 0, None, Some 6] ! i"
    using wbeats3_times l by (metis nth_map)
  have t0: "time (?mp ! 0) = Some 0" and t1: "time (?mp ! 1) = None" and t2: "time (?mp ! 2) = Some 6"
    using t[of 0] t[of 1] t[of 2] by simp_all
  have idx: "\<And>i. i < 3 \<Longrightarrow> i = 0 \<or> i = 1 \<or> i = (2::nat)" by linarith
  have fl: "floorTimeOf wcues None = 0" by (simp add: floorTimeOf_def wcues_def)
  have ce: "ceilTimeOf ?mp wcues None = 9" by (simp add: ceilTimeOf_def wcues_def)
  have h1: "\<forall>i j a b. i < j \<and> j < length ?mp \<and> time (?mp ! i) = Some a \<and> time (?mp ! j) = Some b
              \<longrightarrow> a \<le> b"
  proof (intro allI impI)
    fix i j a b
    assume h: "i < j \<and> j < length ?mp \<and> time (?mp ! i) = Some a \<and> time (?mp ! j) = Some b"
    then have "j < 3" "i < 3" using l by simp_all
    then have "(i = 0 \<or> i = 1 \<or> i = 2) \<and> (j = 0 \<or> j = 1 \<or> j = 2)" using idx by blast
    then show "a \<le> b" using h t0 t1 t2 by auto
  qed
  have h2: "\<forall>i a. i < length ?mp \<and> time (?mp ! i) = Some a
              \<longrightarrow> floorTimeOf wcues None \<le> a \<and> a \<le> ceilTimeOf ?mp wcues None"
  proof (intro allI impI)
    fix i a
    assume h: "i < length ?mp \<and> time (?mp ! i) = Some a"
    then have "i = 0 \<or> i = 1 \<or> i = 2" using idx l by simp
    then show "floorTimeOf wcues None \<le> a \<and> a \<le> ceilTimeOf ?mp wcues None"
      unfolding fl ce using h t0 t1 t2 by auto
  qed
  have h3: "floorTimeOf wcues None \<le> ceilTimeOf ?mp wcues None" unfolding fl ce by simp
  note ic = interpolation_complete[where cs=wcues and beatTexts=wbeats3 and beatTypes=None
      and segStart=None and segEnd=None and cs'=wcues2 and segments=wsegs2]
  have nd: "nonDecreasing (beatTimes ?r)" using ic m h1 h2 h3 by blast
  have "length (segmentMatches (mapSrtToSegments wcues2 wsegs2)) = 3"
    by (simp add: segmentMatches_length wsegs2_def)
  then have "segmentMatches (mapSrtToSegments wcues2 wsegs2) ! 2
               \<in> set (segmentMatches (mapSrtToSegments wcues2 wsegs2))"
    by simp
  then have sg: "segmentMatch.startTime (segmentMatches (mapSrtToSegments wcues2 wsegs2) ! 2) \<noteq> None
    \<and> segmentMatch.endTime (segmentMatches (mapSrtToSegments wcues2 wsegs2) ! 2) \<noteq> None"
    using ic by blast
  show ?thesis using wbeats3_beatTimes nd sg by simp
qed

end
